theory Spec2Isabelle
  imports Main Complex_Main "HOL-Library.Multiset" "HOL-Library.Sublist"
begin

section \<open>JavaScript array and string operations used by the frontend\<close>

text \<open>
  JavaScript's relative indices (\<open>Array.prototype.slice\<close>, \<open>splice\<close>): a negative index
  counts from the end, and the result is clamped to \<open>0..length\<close>.
\<close>

definition relative_index :: "nat \<Rightarrow> int \<Rightarrow> nat" where
  "relative_index len i = (if i < 0 then nat (max (int len + i) 0) else min (nat i) len)"

text \<open>\<open>xs.slice(start)\<close> and \<open>xs.slice(start, end)\<close>.\<close>

definition slice_from :: "int \<Rightarrow> 'a list \<Rightarrow> 'a list" where
  "slice_from start xs = drop (relative_index (length xs) start) xs"

definition slice :: "int \<Rightarrow> int \<Rightarrow> 'a list \<Rightarrow> 'a list" where
  "slice start stop xs =
     (let k = relative_index (length xs) start;
          final = relative_index (length xs) stop
      in take (final - k) (drop k xs))"

text \<open>
  \<open>xs.splice(start, deleteCount, ...items)\<close>: the array after the call, paired with the
  array of removed elements that the call returns.
\<close>

definition splice_at :: "'a list \<Rightarrow> int \<Rightarrow> nat \<Rightarrow> 'a list \<Rightarrow> 'a list \<times> 'a list" where
  "splice_at xs start deleteCount items =
     (let k = relative_index (length xs) start;
          dc = min deleteCount (length xs - k)
      in (take k xs @ items @ drop (k + dc) xs, take dc (drop k xs)))"

text \<open>\<open>xs[i]\<close>: \<open>None\<close> stands for \<open>undefined\<close>.\<close>

definition js_nth :: "'a list \<Rightarrow> nat \<Rightarrow> 'a option" where
  "js_nth xs i = (if i < length xs then Some (xs ! i) else None)"

text \<open>\<open>xs.filter((_, i) => P i)\<close>: the elements whose index passes the test.\<close>

definition filter_index :: "(nat \<Rightarrow> bool) \<Rightarrow> 'a list \<Rightarrow> 'a list" where
  "filter_index P xs = map snd (filter (\<lambda>(i, x). P i) (enumerate 0 xs))"

text \<open>\<open>xs.indexOf(x)\<close>: the first position of \<open>x\<close>, or \<open>-1\<close>.\<close>

fun indexOf :: "'a list \<Rightarrow> 'a \<Rightarrow> int" where
  "indexOf [] x = - 1"
| "indexOf (y # ys) x =
     (if y = x then 0 else (let r = indexOf ys x in if r < 0 then - 1 else r + 1))"

text \<open>\<open>xs.join(sep)\<close> on an array of strings.\<close>

fun join :: "string \<Rightarrow> string list \<Rightarrow> string" where
  "join sep [] = []"
| "join sep [x] = x"
| "join sep (x # y # ys) = x @ sep @ join sep (y # ys)"

text \<open>
  \<open>String.prototype.trim\<close>. A \<open>char\<close> stands for one UTF-16 code unit below 256; the
  white space and line terminators of JavaScript in that range are the code units
  9 to 13, 32 and 160.
\<close>

definition is_space :: "char \<Rightarrow> bool" where
  "is_space c = (of_char c \<in> {9, 10, 11, 12, 13, 32, 160 :: nat})"

definition trim :: "string \<Rightarrow> string" where
  "trim str = rev (dropWhile is_space (rev (dropWhile is_space str)))"

section \<open>The undo/redo hook (frontend/src/hooks/useUndoRedo.ts)\<close>

text \<open>
  The hook keeps three pieces of React state: the stack \<open>past\<close> (oldest entry first),
  the value \<open>present\<close> and the stack \<open>future\<close> (next redo first).

  The callbacks \<open>setState\<close>, \<open>undo\<close> and \<open>redo\<close> are closures of a render: they read
  the \<open>past\<close>, \<open>present\<close> and \<open>future\<close> that this render saw, whatever has been
  queued since. Only \<open>setPast\<close> inside \<open>setState\<close> is a functional update, which works
  on the queued value of \<open>past\<close>. Each callback therefore takes two histories: \<open>render\<close>,
  the state captured by the render the callback belongs to, and \<open>pending\<close>, the state
  queued so far by the calls made since that render; it returns the new pending state.
  The dependency lists of the \<open>useCallback\<close>s name everything the callbacks read, so a
  component always holds the callbacks of its latest render.

  The option \<open>maxHistory\<close> is a JavaScript number, modelled as a real; when the options
  do not give it, it is 10.
\<close>

record 'a history =
  past :: "'a list"
  present :: "'a"
  future :: "'a list"

text \<open>The three \<open>useState\<close> initial values.\<close>

definition useUndoRedo :: "'a \<Rightarrow> 'a history" where
  "useUndoRedo initialState = \<lparr>past = [], present = initialState, future = []\<rparr>"

text \<open>\<open>const { maxHistory = 10 } = options\<close>.\<close>

definition maxHistory_of :: "real option \<Rightarrow> real" where
  "maxHistory_of options = (case options of None \<Rightarrow> 10 | Some m \<Rightarrow> m)"

text \<open>
  The conversion of a number to an integer index, as \<open>slice\<close> applies it to its
  argument: truncation toward zero.
\<close>

definition to_integer :: "real \<Rightarrow> int" where
  "to_integer x = (if 0 \<le> x then \<lfloor>x\<rfloor> else \<lceil>x\<rceil>)"

definition setState :: "real \<Rightarrow> 'a history \<Rightarrow> 'a \<Rightarrow> 'a history \<Rightarrow> 'a history" where
  "setState maxHistory render newState pending =
     (let newPast = past pending @ [present render] in
      \<lparr>past = (if real (length newPast) > maxHistory
               then slice_from (to_integer (real (length newPast) - maxHistory)) newPast
               else newPast),
       present = newState,
       future = []\<rparr>)"

definition undo :: "'a history \<Rightarrow> 'a history \<Rightarrow> 'a history" where
  "undo render pending =
     (if length (past render) = 0 then pending
      else \<lparr>past = slice 0 (int (length (past render)) - 1) (past render),
            present = past render ! (length (past render) - 1),
            future = present render # future render\<rparr>)"

definition redo :: "'a history \<Rightarrow> 'a history \<Rightarrow> 'a history" where
  "redo render pending =
     (if length (future render) = 0 then pending
      else \<lparr>past = past render @ [present render],
            present = future render ! 0,
            future = slice_from 1 (future render)\<rparr>)"

definition reset :: "'a \<Rightarrow> 'a history \<Rightarrow> 'a history" where
  "reset newInitialState pending = \<lparr>past = [], present = newInitialState, future = []\<rparr>"

text \<open>
  The calls a component can make on the hook. An event handler makes a list of calls on
  the callbacks of one render; React applies the queued updates in order and renders
  again, so the next handler sees the resulting state. A session is a list of handlers
  from the initial state.
\<close>

datatype 'a hook_call = SetState 'a | Undo | Redo | Reset 'a

fun hook_call_on :: "real \<Rightarrow> 'a history \<Rightarrow> 'a history \<Rightarrow> 'a hook_call \<Rightarrow> 'a history" where
  "hook_call_on maxHistory render pending (SetState s) = setState maxHistory render s pending"
| "hook_call_on maxHistory render pending Undo = undo render pending"
| "hook_call_on maxHistory render pending Redo = redo render pending"
| "hook_call_on maxHistory render pending (Reset s) = reset s pending"

definition run_handler :: "real \<Rightarrow> 'a history \<Rightarrow> 'a hook_call list \<Rightarrow> 'a history" where
  "run_handler maxHistory render calls = foldl (hook_call_on maxHistory render) render calls"

definition hook_session :: "real \<Rightarrow> 'a \<Rightarrow> 'a hook_call list list \<Rightarrow> 'a history" where
  "hook_session maxHistory initialState handlers =
     foldl (run_handler maxHistory) (useUndoRedo initialState) handlers"

section \<open>The structured script editor (StructuredScriptEditor)\<close>

text \<open>
  \<open>ScriptSectionData\<close>: the field \<open>type\<close> is called \<open>stype\<close> here. \<open>duration\<close> is a
  number that the merge treats as possibly missing (\<open>s.duration || 0\<close>), so it is
  optional; \<open>visual_spec\<close> is an optional \<open>Record<string, unknown>\<close>, kept as a list of
  key/value pairs whose values are opaque text.
\<close>

type_synonym jsobject = "(string \<times> string) list"

record ScriptSectionData =
  stype :: string
  duration :: "real option"
  narration :: string
  visual_spec :: "jsobject option"

text \<open>
  What a handler of the editor does: it throws (a property read on \<open>undefined\<close>), it
  alerts and returns, it returns silently, or it calls \<open>setSections\<close> with a new array.
  Only the last changes the section list of the editor state.
\<close>

datatype 'a edit_result = Threw | Alerted | Ignored | SetSections 'a

fun sections_after :: "'a \<Rightarrow> 'a edit_result \<Rightarrow> 'a" where
  "sections_after sections (SetSections newSections) = newSections"
| "sections_after sections Threw = sections"
| "sections_after sections Alerted = sections"
| "sections_after sections Ignored = sections"

definition deleteSection :: "ScriptSectionData list \<Rightarrow> nat \<Rightarrow> ScriptSectionData list edit_result" where
  "deleteSection sections index =
     (if length sections \<le> 1 then Alerted
      else SetSections (filter_index (\<lambda>i. i \<noteq> index) sections))"

definition splitSectionAtPosition ::
    "ScriptSectionData list \<Rightarrow> nat \<Rightarrow> int \<Rightarrow> ScriptSectionData list edit_result" where
  "splitSectionAtPosition sections index position =
     (case js_nth sections index of
        None \<Rightarrow> Threw
      | Some section \<Rightarrow>
          if position \<le> 0 \<or> position \<ge> int (length (narration section)) then Alerted
          else
            let firstHalf = section\<lparr>narration := trim (slice 0 position (narration section))\<rparr>;
                secondHalf = \<lparr>stype = stype section,
                              duration = Some 0,
                              narration = trim (slice_from position (narration section)),
                              visual_spec = Some (case visual_spec section of
                                                    None \<Rightarrow> [] | Some v \<Rightarrow> v)\<rparr>
            in SetSections (fst (splice_at sections (int index) 1 [firstHalf, secondHalf])))"

text \<open>
  The selection is a \<open>Set<number>\<close>; it is modelled by the list of its members in
  insertion order, which is what \<open>Array.from\<close> yields. The loop that checks that the
  sorted indices are consecutive is \<open>consecutive\<close>.
\<close>

fun consecutive :: "nat list \<Rightarrow> bool" where
  "consecutive (a # b # rest) = (int b - int a = 1 \<and> consecutive (b # rest))"
| "consecutive _ = True"

definition handleMergeSelected ::
    "ScriptSectionData list \<Rightarrow> nat list \<Rightarrow> ScriptSectionData list edit_result" where
  "handleMergeSelected sections selectedIndices =
     (if length selectedIndices < 2 then Alerted
      else
        let sortedIndices = sort selectedIndices in
        if \<not> consecutive sortedIndices then Alerted
        else
          case those (map (js_nth sections) sortedIndices) of
            None \<Rightarrow> Threw
          | Some [] \<Rightarrow> Threw
          | Some (first # rest) \<Rightarrow>
              let sectionsToMerge = first # rest;
                  mergedSection =
                    \<lparr>stype = stype first,
                     duration = Some (foldl (\<lambda>sum s. sum + (case duration s of
                                                              None \<Rightarrow> 0 | Some d \<Rightarrow> d))
                                       0 sectionsToMerge),
                     narration = join [CHR 0x0A] (map narration sectionsToMerge),
                     visual_spec = visual_spec first\<rparr>;
                  newSections = filter_index (\<lambda>i. i \<notin> set selectedIndices) sections
              in SetSections (fst (splice_at newSections (int (hd sortedIndices)) 0 [mergedSection])))"

text \<open>
  Drag and drop. \<open>sectionIds\<close> are the strings \<open>section-0\<close>, \<open>section-1\<close>, ...;
  \<open>arrayMove\<close> is the function of the drag-and-drop library (\<open>@dnd-kit/sortable\<close>):
  it copies the array, evaluates the insertion index against the length of the copy,
  removes the element at \<open>from\<close> and inserts it at that index. When nothing is removed
  the inserted value is \<open>undefined\<close>, so the result is a list of optional elements.
\<close>

definition digit_char :: "nat \<Rightarrow> char" where
  "digit_char d = char_of (of_char (CHR ''0'') + d)"

fun string_of_nat :: "nat \<Rightarrow> string" where
  "string_of_nat n =
     (let units = [digit_char (n mod 10)]
      in if n < 10 then units else string_of_nat (n div 10) @ units)"

definition sectionIds :: "'a list \<Rightarrow> string list" where
  "sectionIds sections = map (\<lambda>i. ''section-'' @ string_of_nat i) [0..<length sections]"

definition arrayMove :: "'a list \<Rightarrow> int \<Rightarrow> int \<Rightarrow> 'a option list" where
  "arrayMove array from to =
     (let target = (if to < 0 then int (length array) + to else to);
          (rest, removed) = splice_at array from 1 [];
          moved = (case removed of [] \<Rightarrow> None | x # _ \<Rightarrow> Some x)
      in fst (splice_at (map Some rest) target 0 [moved]))"

definition handleDragEnd ::
    "ScriptSectionData list \<Rightarrow> string \<Rightarrow> string option
       \<Rightarrow> ScriptSectionData option list edit_result" where
  "handleDragEnd sections active over =
     (case over of
        None \<Rightarrow> Ignored
      | Some overId \<Rightarrow>
          if active \<noteq> overId then
            let oldIndex = indexOf (sectionIds sections) active;
                newIndex = indexOf (sectionIds sections) overId
            in SetSections (arrayMove sections oldIndex newIndex)
          else Ignored)"

text \<open>
  The positions of an array that hold a section. The ordering is contiguous when these
  are exactly \<open>0, ..., n - 1\<close> for the array's length \<open>n\<close>.
\<close>

definition occupied_positions :: "'a option list \<Rightarrow> nat list" where
  "occupied_positions xs = filter (\<lambda>i. xs ! i \<noteq> None) [0..<length xs]"

definition contiguous :: "'a option list \<Rightarrow> bool" where
  "contiguous xs = (occupied_positions xs = [0..<length xs])"

section \<open>The pipeline pages (narration and compose)\<close>

datatype ProjectState = init | script_done | visuals_done | narration_done | composed

text \<open>
  Of a project the pages read the state and, per section, the path of the narration
  audio. A page either shows the loading text, the load-failure text, or its main
  content; the main content is a record with one flag per conditionally rendered block.
\<close>

record Section =
  narration_audio_path :: "string option"

record Project =
  state :: ProjectState
  project_sections :: "Section list"

datatype 'a page = Loading | LoadFailed | Rendered 'a

text \<open>JavaScript truthiness of an optional string: present and not empty.\<close>

definition truthy :: "string option \<Rightarrow> bool" where
  "truthy v = (case v of None \<Rightarrow> False | Some str \<Rightarrow> str \<noteq> [])"



text \<open>The fields of the compose status that decide what the compose page renders.\<close>

record ComposeStatusResponse =
  is_composed :: bool
  can_compose :: bool
  ffmpeg_available :: bool

record ComposeResponse =
  video_url :: "string option"

record compose_view =
  narration_first_notice :: bool
  compose_button :: bool
  compose_button_disabled :: bool
  recompose_label :: bool
  ffmpeg_ok_label :: bool
  download_button :: bool
  compose_error_text :: bool
  video_player :: bool
  ffmpeg_notice :: bool
  completed_message :: bool

definition ComposePage ::
    "bool \<Rightarrow> bool \<Rightarrow> Project option \<Rightarrow> ComposeStatusResponse option \<Rightarrow> string option
       \<Rightarrow> bool \<Rightarrow> bool \<Rightarrow> compose_view page" where
  "ComposePage isLoading error project status videoUrl composeIsError composeIsPending =
     (if isLoading then Loading
      else case project of
        None \<Rightarrow> LoadFailed
      | Some proj \<Rightarrow>
          if error then LoadFailed
          else
            let canCompose = ((case status of None \<Rightarrow> False | Some st \<Rightarrow> can_compose st)
                              \<or> state proj = narration_done);
                isComposed = (state proj = composed)
            in Rendered
                 \<lparr>narration_first_notice = (\<not> canCompose),
                  compose_button = canCompose,
                  compose_button_disabled = (canCompose \<and> composeIsPending),
                  recompose_label = (canCompose \<and> isComposed),
                  ffmpeg_ok_label =
                    (canCompose \<and> (case status of None \<Rightarrow> False | Some st \<Rightarrow> ffmpeg_available st)),
                  download_button = (canCompose \<and> truthy videoUrl),
                  compose_error_text = (canCompose \<and> composeIsError),
                  video_player = (canCompose \<and> truthy videoUrl),
                  ffmpeg_notice =
                    (canCompose \<and> (case status of None \<Rightarrow> False
                                    | Some st \<Rightarrow> \<not> ffmpeg_available st)),
                  completed_message = (canCompose \<and> isComposed \<and> \<not> truthy videoUrl)\<rparr>)"


definition handleCompose ::
    "'e + ComposeResponse \<Rightarrow> string option \<Rightarrow> string option \<times> bool \<times> bool" where
  "handleCompose answer videoUrl =
     (case answer of
        Inl e \<Rightarrow> (videoUrl, True, False)
      | Inr result \<Rightarrow>
          ((if truthy (video_url result) then video_url result else videoUrl), False, True))"

text \<open>What a page shows of a flag: nothing while loading or after a load failure.\<close>

definition page_shows :: "('a \<Rightarrow> bool) \<Rightarrow> 'a page \<Rightarrow> bool" where
  "page_shows flag pg = (case pg of Rendered v \<Rightarrow> flag v | _ \<Rightarrow> False)"

section \<open>The pipeline orchestrator\<close>







section \<open>The preferences page\<close>



text \<open>
  The manual creation form. \<open>NewPref\<close> is the form state \<open>newPref\<close> (its fields carry
  the prefix \<open>form_\<close>); an event is one \<open>onChange\<close> of a control. A select can only
  yield one of its options, the section-type select exists only while the scope is
  \<open>section_type\<close>, and the slider yields the tenths from 0 to 1; \<open>onChange\<close> is \<open>None\<close>
  for an event the rendered form cannot produce.
\<close>

record NewPref =
  form_description :: string
  form_category :: string
  form_scope :: string
  form_section_type :: string
  form_confidence :: real

definition newPref_initial :: NewPref where
  "newPref_initial =
     \<lparr>form_description = [], form_category = ''style'', form_scope = ''global'',
      form_section_type = [], form_confidence = 0.7\<rparr>"

definition category_options :: "string list" where
  "category_options = [''style'', ''structural'', ''content'', ''technical'']"

definition scope_options :: "string list" where
  "scope_options = [''global'', ''section_type'', ''project'']"

definition section_type_options :: "string list" where
  "section_type_options = [[], ''title'', ''slide'', ''code'', ''summary'']"

datatype form_event =
    SetDescription string
  | SetCategory string
  | SetScope string
  | SetSectionType string
  | SetConfidence nat

fun onChange :: "NewPref \<Rightarrow> form_event \<Rightarrow> NewPref option" where
  "onChange f (SetDescription d) = Some (f\<lparr>form_description := d\<rparr>)"
| "onChange f (SetCategory c) =
     (if c \<in> set category_options then Some (f\<lparr>form_category := c\<rparr>) else None)"
| "onChange f (SetScope sc) =
     (if sc \<in> set scope_options then Some (f\<lparr>form_scope := sc\<rparr>) else None)"
| "onChange f (SetSectionType t) =
     (if form_scope f = ''section_type'' \<and> t \<in> set section_type_options
      then Some (f\<lparr>form_section_type := t\<rparr>) else None)"
| "onChange f (SetConfidence tenths) =
     (if tenths \<le> 10 then Some (f\<lparr>form_confidence := real tenths / 10\<rparr>) else None)"

fun form_run :: "NewPref \<Rightarrow> form_event list \<Rightarrow> NewPref option" where
  "form_run f [] = Some f"
| "form_run f (e # es) = (case onChange f e of None \<Rightarrow> None | Some f' \<Rightarrow> form_run f' es)"

text \<open>
  The body of the create request (\<open>createPreference\<close>'s argument) and \<open>handleCreate\<close>,
  which builds it from the form state: an empty section type is sent as \<open>undefined\<close>.
  The form never sends a project id; the request has no such field.
\<close>

record PreferenceCreate =
  description :: string
  category :: string
  scope :: "string option"
  section_type :: "string option"
  confidence :: "real option"

definition handleCreate :: "NewPref \<Rightarrow> PreferenceCreate" where
  "handleCreate newPref =
     \<lparr>description = form_description newPref,
      category = form_category newPref,
      scope = Some (form_scope newPref),
      section_type = (if form_section_type newPref = [] then None
                      else Some (form_section_type newPref)),
      confidence = Some (form_confidence newPref)\<rparr>"

text \<open>
  The \<open>CHECK\<close> constraints of the \<open>preferences\<close> table, on the values of the columns
  \<open>category\<close>, \<open>scope\<close> and \<open>section_type\<close> (the first two are \<open>NOT NULL\<close>, the third
  may be \<open>NULL\<close>). An insert is accepted when all three hold.
\<close>

definition preferences_category_check :: "string \<Rightarrow> bool" where
  "preferences_category_check cat =
     (cat \<in> set [''style'', ''structural'', ''content'', ''technical''])"

definition preferences_scope_check :: "string \<Rightarrow> bool" where
  "preferences_scope_check sc =
     (sc \<in> set [''global'', ''project'', ''section_type'', ''specific''])"

definition preferences_section_type_check :: "string option \<Rightarrow> bool" where
  "preferences_section_type_check st =
     (case st of
        None \<Rightarrow> True
      | Some t \<Rightarrow> t \<in> set [''title'', ''slide'', ''code'', ''code_typing'', ''diagram'',
                             ''summary''])"

definition preferences_insert_checks :: "string \<Rightarrow> string \<Rightarrow> string option \<Rightarrow> bool" where
  "preferences_insert_checks cat sc st =
     (preferences_category_check cat \<and> preferences_scope_check sc
      \<and> preferences_section_type_check st)"

text \<open>
  The pairing of scope and qualifier that the specification asks of a Preference, on the
  scope, the section type and the project id: scope \<open>section_type\<close> needs a section
  type, scope \<open>specific\<close> needs a project id, and scope \<open>global\<close> admits neither.
\<close>

definition scope_qualifier_ok :: "string \<Rightarrow> string option \<Rightarrow> string option \<Rightarrow> bool" where
  "scope_qualifier_ok sc st pid =
     (if sc = ''section_type'' then st \<noteq> None
      else if sc = ''specific'' then pid \<noteq> None
      else if sc = ''global'' then st = None \<and> pid = None
      else True)"

fun is_SetSectionType :: "form_event \<Rightarrow> bool" where
  "is_SetSectionType (SetSectionType t) = True"
| "is_SetSectionType _ = False"

section \<open>The dependency graph tracker\<close>

text \<open>
  Modelled from the spec: the stage dependency map and \<open>staleFrontier\<close> of the DAG
  tracker, which are not among the sources. The units are the five pipeline stages;
  narration, images and animations depend on script, and composition depends on all
  three. \<open>all_units\<close> lists the units in a topological order of the map.
\<close>

datatype unit_kind = Script | Narration | Images | Animations | Composition

fun depends_on :: "unit_kind \<Rightarrow> unit_kind list" where
  "depends_on Script = []"
| "depends_on Narration = [Script]"
| "depends_on Images = [Script]"
| "depends_on Animations = [Script]"
| "depends_on Composition = [Narration, Images, Animations]"

definition all_units :: "unit_kind list" where
  "all_units = [Script, Narration, Images, Animations, Composition]"

text \<open>
  Modelled from the spec: the units that depend directly on a unit of \<open>us\<close>, and the
  closure under this step, iterated once per unit of the map (no dependency chain is
  longer).
\<close>

definition direct_dependents :: "unit_kind list \<Rightarrow> unit_kind list" where
  "direct_dependents us = filter (\<lambda>v. list_ex (\<lambda>d. d \<in> set us) (depends_on v)) all_units"

fun dependents_closure :: "nat \<Rightarrow> unit_kind list \<Rightarrow> unit_kind list" where
  "dependents_closure 0 found = found"
| "dependents_closure (Suc rounds) found =
     dependents_closure rounds (found @ direct_dependents found)"

text \<open>
  Modelled from the spec: \<open>staleFrontier changedUnits\<close> is the closure of all units
  transitively dependent on the changed ones, listed in the topological order.
\<close>

definition staleFrontier :: "unit_kind list \<Rightarrow> unit_kind list" where
  "staleFrontier changedUnits =
     (let reached = dependents_closure (length all_units) (direct_dependents changedUnits)
      in filter (\<lambda>u. u \<in> set reached) all_units)"

text \<open>
  \<open>precedes a b xs\<close>: no occurrence of \<open>a\<close> at or after the first occurrence of \<open>b\<close>,
  so wherever both occur, \<open>a\<close> comes first.
\<close>

definition precedes :: "'a \<Rightarrow> 'a \<Rightarrow> 'a list \<Rightarrow> bool" where
  "precedes a b xs = (a \<notin> set (dropWhile (\<lambda>x. x \<noteq> b) xs))"

section \<open>The preference store\<close>

text \<open>
  Modelled from the spec: the store of Preference records behind the requests of
  \<open>usePreferences.ts\<close> (create, update, delete, evolve); the backend that serves them
  is not among the sources. A Preference is never hard-deleted: the delete request
  sets \<open>is_active\<close> to false and keeps the record. The Evolution Engine creates new
  Preferences or revises the confidence of existing ones; what it inferred is given
  with the request.
\<close>

record Preference =
  preference_id :: string
  pref_description :: string
  pref_category :: string
  pref_scope :: string
  pref_section_type :: "string option"
  pref_project_id :: "string option"
  pref_confidence :: real
  is_active :: bool

record preference_patch =
  patch_description :: "string option"
  patch_confidence :: "real option"
  patch_is_active :: "bool option"

datatype inference = Infer Preference | Reinforce string real

datatype preference_request =
    CreatePreference Preference
  | UpdatePreference string preference_patch
  | DeletePreference string
  | EvolvePreferences "inference list"

definition update_where :: "string \<Rightarrow> (Preference \<Rightarrow> Preference) \<Rightarrow> Preference list
                              \<Rightarrow> Preference list" where
  "update_where ident change store =
     map (\<lambda>p. if preference_id p = ident then change p else p) store"

definition apply_patch :: "preference_patch \<Rightarrow> Preference \<Rightarrow> Preference" where
  "apply_patch patch p =
     p\<lparr>pref_description := (case patch_description patch of None \<Rightarrow> pref_description p
                              | Some d \<Rightarrow> d),
       pref_confidence := (case patch_confidence patch of None \<Rightarrow> pref_confidence p
                             | Some c \<Rightarrow> c),
       is_active := (case patch_is_active patch of None \<Rightarrow> is_active p | Some a \<Rightarrow> a)\<rparr>"

fun apply_inference :: "Preference list \<Rightarrow> inference \<Rightarrow> Preference list" where
  "apply_inference store (Infer p) = store @ [p]"
| "apply_inference store (Reinforce ident c) =
     update_where ident (\<lambda>p. p\<lparr>pref_confidence := c\<rparr>) store"

fun serve :: "Preference list \<Rightarrow> preference_request \<Rightarrow> Preference list" where
  "serve store (CreatePreference p) = store @ [p]"
| "serve store (UpdatePreference ident patch) = update_where ident (apply_patch patch) store"
| "serve store (DeletePreference ident) =
     update_where ident (\<lambda>p. p\<lparr>is_active := False\<rparr>) store"
| "serve store (EvolvePreferences inferred) = foldl apply_inference store inferred"

section \<open>The confidence tiers\<close>















text \<open>A small script used to exercise the handlers on concrete input.\<close>

definition intro_section :: ScriptSectionData where
  "intro_section = \<lparr>stype = ''title'', duration = Some 3, narration = ''Hi all'', visual_spec = None\<rparr>"

definition body_section :: ScriptSectionData where
  "body_section = \<lparr>stype = ''slide'', duration = None, narration = ''Body'', visual_spec = Some [(''heading'', ''H'')]\<rparr>"

definition outro_section :: ScriptSectionData where
  "outro_section = \<lparr>stype = ''summary'', duration = Some 2, narration = ''Bye'', visual_spec = None\<rparr>"

section \<open>Facts about the JavaScript operations\<close>

lemma relative_index_nat [simp]: "relative_index len (int k) = min k len"
  by (simp add: relative_index_def)

lemma splice_insert:
  "k \<le> length xs \<Longrightarrow> fst (splice_at xs (int k) 0 items) = take k xs @ items @ drop k xs"
  by (simp add: splice_at_def Let_def min_def)

lemma splice_replace:
  "index < length xs \<Longrightarrow>
     fst (splice_at xs (int index) (Suc 0) items) = take index xs @ items @ drop (Suc index) xs"
  by (simp add: splice_at_def Let_def min_def)

lemma filter_enumerate_all:
  "\<forall>i. n \<le> i \<and> i < n + length xs \<longrightarrow> P i \<Longrightarrow>
     map snd (filter (\<lambda>(i, x). P i) (enumerate n xs)) = xs"
  by (induction xs arbitrary: n) auto

lemma filter_enumerate_none:
  "\<forall>i. n \<le> i \<and> i < n + length xs \<longrightarrow> \<not> P i \<Longrightarrow>
     map snd (filter (\<lambda>(i, x). P i) (enumerate n xs)) = []"
  by (induction xs arbitrary: n) auto

lemma filter_index_remove_range:
  assumes "i0 + k \<le> length xs"
  shows "filter_index (\<lambda>i. i \<notin> {i0..<i0 + k}) xs = take i0 xs @ drop (i0 + k) xs"
proof -
  let ?a = "take i0 xs" and ?b = "take k (drop i0 xs)" and ?c = "drop (i0 + k) xs"
  let ?P = "\<lambda>i. i \<notin> {i0..<i0 + k}"
  have xs: "xs = ?a @ ?b @ ?c"
  proof -
    have c: "?c = drop k (drop i0 xs)" by (simp add: add.commute)
    have "xs = ?a @ drop i0 xs" by simp
    also have "drop i0 xs = ?b @ drop k (drop i0 xs)"
      by (rule append_take_drop_id [symmetric])
    finally show ?thesis unfolding c .
  qed
  have la: "length ?a = i0" and lb: "length ?b = k" using assms by auto
  have e: "enumerate 0 xs = enumerate 0 ?a @ enumerate i0 ?b @ enumerate (i0 + k) ?c"
    by (subst xs) (simp only: enumerate_append_eq la lb add_0)
  have a: "map snd (filter (\<lambda>(i, x). ?P i) (enumerate 0 ?a)) = ?a"
    by (rule filter_enumerate_all) (use la in auto)
  have b: "map snd (filter (\<lambda>(i, x). ?P i) (enumerate i0 ?b)) = []"
    by (rule filter_enumerate_none) (use lb in auto)
  have c: "map snd (filter (\<lambda>(i, x). ?P i) (enumerate (i0 + k) ?c)) = ?c"
    by (rule filter_enumerate_all) auto
  show ?thesis
    unfolding filter_index_def e by (simp only: filter_append map_append a b c append_Nil)
qed

lemma filter_index_cong:
  "(\<And>i. i < length xs \<Longrightarrow> P i = Q i) \<Longrightarrow> filter_index P xs = filter_index Q xs"
  unfolding filter_index_def
  by (rule arg_cong [where f = "map snd"], rule filter_cong) (auto simp: in_set_enumerate_eq)

lemma filter_index_remove_one:
  "index < length xs \<Longrightarrow>
     filter_index (\<lambda>i. i \<noteq> index) xs = take index xs @ drop (Suc index) xs"
proof -
  assume a: "index < length xs"
  have "filter_index (\<lambda>i. i \<noteq> index) xs = filter_index (\<lambda>i. i \<notin> {index..<index + 1}) xs"
    by (rule filter_index_cong) auto
  also have "\<dots> = take index xs @ drop (index + 1) xs"
    by (rule filter_index_remove_range) (use a in simp)
  finally show ?thesis by simp
qed

lemma filter_index_keep_all:
  "length xs \<le> index \<Longrightarrow> filter_index (\<lambda>i. i \<noteq> index) xs = xs"
  unfolding filter_index_def by (rule filter_enumerate_all) auto

lemma slice_from_nonneg: "0 \<le> start \<Longrightarrow> slice_from start xs = drop (nat start) xs"
  by (simp add: slice_from_def relative_index_def min_def)

lemma slice_0_butlast: "xs \<noteq> [] \<Longrightarrow> slice 0 (int (length xs) - 1) xs = butlast xs"
  by (cases xs rule: rev_cases) (simp_all add: slice_def relative_index_def)

section \<open>Properties of the undo/redo hook\<close>

lemma to_integer_nonneg: "0 \<le> x \<Longrightarrow> 0 \<le> to_integer x"
  by (simp add: to_integer_def)

lemma past_setState:
  "past (setState maxHistory r s h) =
     (if real (length (past h) + 1) > maxHistory
      then drop (nat (to_integer (real (length (past h) + 1) - maxHistory)))
                (past h @ [present r])
      else past h @ [present r])"
  by (simp add: setState_def Let_def slice_from_nonneg to_integer_nonneg)

lemma past_setState_last:
  assumes "1 \<le> maxHistory"
  shows "past (setState maxHistory r s h) \<noteq> []"
    and "last (past (setState maxHistory r s h)) = present r"
proof -
  let ?np = "past h @ [present r]"
  let ?k = "nat (to_integer (real (length (past h) + 1) - maxHistory))"
  have "real (length (past h) + 1) - maxHistory \<le> real (length (past h))"
    using assms by simp
  then have "to_integer (real (length (past h) + 1) - maxHistory) \<le> int (length (past h))"
    by (auto simp: to_integer_def floor_le_iff ceiling_le_iff)
  then have len: "?k < length ?np" by simp
  then have ne: "drop ?k ?np \<noteq> []" by simp
  have la: "last (drop ?k ?np) = present r"
    using last_drop [OF len] by simp
  show "past (setState maxHistory r s h) \<noteq> []"
    unfolding past_setState using ne by simp
  show "last (past (setState maxHistory r s h)) = present r"
    unfolding past_setState using la by simp
qed

lemma undo_nonempty:
  "past r \<noteq> [] \<Longrightarrow>
     undo r h = \<lparr>past = butlast (past r), present = last (past r),
                  future = present r # future r\<rparr>"
  by (simp add: undo_def slice_0_butlast last_conv_nth)

lemma redo_nonempty:
  "future r = x # xs \<Longrightarrow> redo r h = \<lparr>past = past r @ [present r], present = x, future = xs\<rparr>"
  by (simp add: redo_def slice_from_nonneg)

lemma length_past_setState:
  assumes "maxHistory \<in> \<int>" and "0 \<le> maxHistory"
  shows "real (length (past (setState maxHistory r s h))) \<le> maxHistory"
proof -
  from assms(1) obtain m :: int where m: "maxHistory = of_int m"
    by (auto elim: Ints_cases)
  with assms(2) have m0: "0 \<le> m" by simp
  show ?thesis
  proof (cases "real (length (past h) + 1) > maxHistory")
    case False
    then show ?thesis by (simp add: past_setState)
  next
    case True
    then have lt: "m < int (length (past h)) + 1" unfolding m by linarith
    have "real (length (past h) + 1) - maxHistory = of_int (int (length (past h)) + 1 - m)"
      unfolding m by simp
    then have "to_integer (real (length (past h) + 1) - maxHistory)
                 = int (length (past h)) + 1 - m"
      using lt by (simp add: to_integer_def del: of_int_diff of_int_add)
    then have "length (past (setState maxHistory r s h)) = nat m"
      using True lt m0 by (simp add: past_setState)
    then show ?thesis using m0 by (simp add: m)
  qed
qed

lemma hook_call_on_budget:
  assumes "maxHistory \<in> \<int>" and "0 \<le> maxHistory"
    and "real (length (past r) + length (future r)) \<le> maxHistory"
    and "real (length (past h) + length (future h)) \<le> maxHistory"
  shows "real (length (past (hook_call_on maxHistory r h c))
             + length (future (hook_call_on maxHistory r h c))) \<le> maxHistory"
proof (cases c)
  case (SetState s)
  have "future (setState maxHistory r s h) = []"
    by (simp add: setState_def Let_def)
  then show ?thesis
    using SetState length_past_setState [OF assms(1,2), of r s h] by simp
next
  case Undo
  show ?thesis
  proof (cases "past r = []")
    case True
    then show ?thesis using Undo assms(4) by (simp add: undo_def)
  next
    case False
    then have "real (length (past r) - Suc 0) = real (length (past r)) - 1"
      by (cases "past r") simp_all
    then show ?thesis using Undo assms(3) False
      by (simp add: undo_nonempty)
  qed
next
  case Redo
  show ?thesis
  proof (cases "future r")
    case Nil
    then show ?thesis using Redo assms(4) by (simp add: redo_def)
  next
    case (Cons x xs)
    then show ?thesis using Redo assms(3) by (simp add: redo_nonempty)
  qed
next
  case (Reset s)
  then show ?thesis using assms(2) by (simp add: reset_def)
qed

lemma foldl_hook_call_on_budget:
  assumes "maxHistory \<in> \<int>" and "0 \<le> maxHistory"
    and "real (length (past r) + length (future r)) \<le> maxHistory"
  shows "real (length (past h) + length (future h)) \<le> maxHistory \<Longrightarrow>
         real (length (past (foldl (hook_call_on maxHistory r) h calls))
             + length (future (foldl (hook_call_on maxHistory r) h calls))) \<le> maxHistory"
proof (induction calls arbitrary: h)
  case Nil
  then show ?case by simp
next
  case (Cons c calls)
  from hook_call_on_budget [OF assms Cons.prems]
  show ?case using Cons.IH by simp
qed

lemma run_handler_budget:
  assumes "maxHistory \<in> \<int>" and "0 \<le> maxHistory"
    and "real (length (past r) + length (future r)) \<le> maxHistory"
  shows "real (length (past (run_handler maxHistory r calls))
             + length (future (run_handler maxHistory r calls))) \<le> maxHistory"
  unfolding run_handler_def
  by (rule foldl_hook_call_on_budget [OF assms assms(3)])

lemma foldl_run_handler_budget:
  assumes "maxHistory \<in> \<int>" and "0 \<le> maxHistory"
  shows "real (length (past r) + length (future r)) \<le> maxHistory \<Longrightarrow>
         real (length (past (foldl (run_handler maxHistory) r handlers))
             + length (future (foldl (run_handler maxHistory) r handlers))) \<le> maxHistory"
proof (induction handlers arbitrary: r)
  case Nil
  then show ?case by simp
next
  case (Cons calls handlers)
  from run_handler_budget [OF assms Cons.prems]
  show ?case using Cons.IH by simp
qed

lemma hook_session_budget:
  assumes "maxHistory \<in> \<int>" and "0 \<le> maxHistory"
  shows "real (length (past (hook_session maxHistory x handlers))
             + length (future (hook_session maxHistory x handlers))) \<le> maxHistory"
  unfolding hook_session_def
  by (rule foldl_run_handler_budget [OF assms]) (simp add: useUndoRedo_def assms)

lemma run_handler_single:
  "run_handler maxHistory r [c] = hook_call_on maxHistory r r c"
  by (simp add: run_handler_def)

text \<open>
  Claim C10, as amended. For a history size \<open>maxHistory \<ge> 1\<close> (10 when the options do
  not give one) and calls made in separate event handlers, so that the component renders
  between them: \<open>setState s\<close> followed by \<open>undo\<close> restores the previous present value,
  and a following \<open>redo\<close> yields \<open>s\<close> again. On any render, \<open>undo\<close> with an empty past
  and \<open>redo\<close> with an empty future change nothing, and every \<open>setState\<close> empties the
  future stack. When \<open>maxHistory\<close> is moreover a whole number, the past stack holds at most
  \<open>maxHistory\<close> entries after any session of handlers, however many calls each handler
  makes.
\<close>

theorem useUndoRedo_round_trip:
  assumes "1 \<le> maxHistory"
  shows "present (run_handler maxHistory (run_handler maxHistory r [SetState s]) [Undo])
           = present r
       \<and> present (run_handler maxHistory
                    (run_handler maxHistory (run_handler maxHistory r [SetState s]) [Undo])
                    [Redo]) = s
       \<and> (past r = [] \<longrightarrow> undo r h = h)
       \<and> (future r = [] \<longrightarrow> redo r h = h)
       \<and> future (setState maxHistory r s h) = []
       \<and> (maxHistory \<in> \<int> \<longrightarrow>
            real (length (past (hook_session maxHistory x handlers))) \<le> maxHistory)"
proof -
  let ?r1 = "setState maxHistory r s r"
  note ne = past_setState_last(1) [OF assms, of r s r]
  note la = past_setState_last(2) [OF assms, of r s r]
  have fut: "future (setState maxHistory r s h) = []" for h
    by (simp add: setState_def Let_def)
  have pres: "present ?r1 = s"
    by (simp add: setState_def Let_def)
  have u: "undo ?r1 ?r1 = \<lparr>past = butlast (past ?r1), present = present r, future = [s]\<rparr>"
    using undo_nonempty [OF ne] la fut pres by simp
  have p1: "present (run_handler maxHistory (run_handler maxHistory r [SetState s]) [Undo])
              = present r"
    by (simp add: run_handler_single u)
  have p2: "present (run_handler maxHistory
                    (run_handler maxHistory (run_handler maxHistory r [SetState s]) [Undo])
                    [Redo]) = s"
    by (simp add: run_handler_single u redo_nonempty)
  have e1: "past r = [] \<longrightarrow> undo r h = h"
    by (simp add: undo_def)
  have e2: "future r = [] \<longrightarrow> redo r h = h"
    by (simp add: redo_def)
  have b: "maxHistory \<in> \<int> \<longrightarrow>
            real (length (past (hook_session maxHistory x handlers))) \<le> maxHistory"
  proof
    assume i: "maxHistory \<in> \<int>"
    from assms have "0 \<le> maxHistory" by simp
    from hook_session_budget [OF i this, of x handlers]
    show "real (length (past (hook_session maxHistory x handlers))) \<le> maxHistory"
      by simp
  qed
  from p1 p2 e1 e2 fut [of h] b show ?thesis
    by blast
qed

text \<open>
  Witness for C10: the default history size, on a hook that already holds two past
  entries and one future entry, and a session that edits, undoes and redoes.
\<close>

theorem useUndoRedo_round_trip_witness:
  "1 \<le> maxHistory_of None
   \<and> present (run_handler (maxHistory_of None)
        (run_handler (maxHistory_of None)
           \<lparr>past = [1, 2], present = 3 :: nat, future = [4]\<rparr> [SetState 5]) [Undo]) = 3
   \<and> present (run_handler (maxHistory_of None)
        (run_handler (maxHistory_of None)
           (run_handler (maxHistory_of None)
              \<lparr>past = [1, 2], present = 3 :: nat, future = [4]\<rparr> [SetState 5]) [Undo])
        [Redo]) = 5
   \<and> past (useUndoRedo (1 :: nat)) = []
   \<and> undo (useUndoRedo (1 :: nat)) \<lparr>past = [1, 2], present = 3, future = [4]\<rparr>
       = \<lparr>past = [1, 2], present = 3, future = [4]\<rparr>
   \<and> future (useUndoRedo (1 :: nat)) = []
   \<and> redo (useUndoRedo (1 :: nat)) \<lparr>past = [1, 2], present = 3, future = [4]\<rparr>
       = \<lparr>past = [1, 2], present = 3, future = [4]\<rparr>
   \<and> maxHistory_of None \<in> \<int>
   \<and> real (length (past (hook_session (maxHistory_of None) (1 :: nat)
                 [[SetState 2], [SetState 3, Undo], [Redo, SetState 4]])))
       \<le> maxHistory_of None"
proof -
  have m: "1 \<le> maxHistory_of None" and i: "maxHistory_of None \<in> \<int>"
    by (simp_all add: maxHistory_of_def)
  have e1: "past (useUndoRedo (1 :: nat)) = []" and e2: "future (useUndoRedo (1 :: nat)) = []"
    by (simp_all add: useUndoRedo_def)
  note t1 = useUndoRedo_round_trip
      [OF m, of "\<lparr>past = [1, 2], present = 3 :: nat, future = [4]\<rparr>" 5
          "\<lparr>past = [1, 2], present = 3 :: nat, future = [4]\<rparr>" "1 :: nat"
          "[[SetState 2], [SetState 3, Undo], [Redo, SetState 4]]"]
  note t2 = useUndoRedo_round_trip
      [OF m, of "useUndoRedo (1 :: nat)" 5
          "\<lparr>past = [1, 2], present = 3 :: nat, future = [4]\<rparr>" "1 :: nat" "[]"]
  from t1 [THEN conjunct1]
  have a: "present (run_handler (maxHistory_of None)
        (run_handler (maxHistory_of None)
           \<lparr>past = [1, 2], present = 3 :: nat, future = [4]\<rparr> [SetState 5]) [Undo]) = 3"
    by simp
  note b = t1 [THEN conjunct2, THEN conjunct1]
  from t1 [THEN conjunct2, THEN conjunct2, THEN conjunct2, THEN conjunct2, THEN conjunct2] i
  have c: "real (length (past (hook_session (maxHistory_of None) (1 :: nat)
                 [[SetState 2], [SetState 3, Undo], [Redo, SetState 4]])))
       \<le> maxHistory_of None"
    by (rule mp)
  from t2 [THEN conjunct2, THEN conjunct2, THEN conjunct1] e1
  have d: "undo (useUndoRedo (1 :: nat)) \<lparr>past = [1, 2], present = 3, future = [4]\<rparr>
       = \<lparr>past = [1, 2], present = 3, future = [4]\<rparr>"
    by (rule mp)
  from t2 [THEN conjunct2, THEN conjunct2, THEN conjunct2, THEN conjunct1] e2
  have e: "redo (useUndoRedo (1 :: nat)) \<lparr>past = [1, 2], present = 3, future = [4]\<rparr>
       = \<lparr>past = [1, 2], present = 3, future = [4]\<rparr>"
    by (rule mp)
  show ?thesis
    by (intro conjI) (rule m a b e1 d e2 e i c)+
qed

text \<open>
  Counterexamples to C10 as stated. With \<open>maxHistory = 0\<close> the entry pushed by
  \<open>setState\<close> is sliced away at once, so the following \<open>undo\<close> finds an empty past.
  When \<open>setState\<close> and \<open>undo\<close> are called in the same handler, \<open>undo\<close> still reads the
  empty past of the render and returns at once, so the present value stays the new one.
  With \<open>maxHistory = 1.5\<close> the slice start \<open>0.5\<close> truncates to 0 and the past stack
  keeps two entries.
\<close>

theorem useUndoRedo_round_trip_counterexample:
  "present (run_handler 0 (run_handler 0 (useUndoRedo (1 :: nat)) [SetState 2]) [Undo])
     \<noteq> present (useUndoRedo (1 :: nat))
   \<and> present (run_handler (maxHistory_of None) (useUndoRedo (1 :: nat)) [SetState 2, Undo])
     \<noteq> present (useUndoRedo (1 :: nat))
   \<and> real (length (past (hook_session (3 / 2) (1 :: nat) [[SetState 2], [SetState 3]])))
     > 3 / 2"
  by (simp add: run_handler_def hook_session_def setState_def undo_def useUndoRedo_def
                slice_from_def relative_index_def to_integer_def maxHistory_of_def Let_def)

section \<open>Properties of the script editor\<close>

lemma consecutive_upt: "consecutive [i..<i + k]"
proof (induction k arbitrary: i)
  case 0 then show ?case by simp
next
  case (Suc k)
  have "[i..<i + Suc k] = i # [Suc i..<Suc i + k]" by (simp add: upt_rec)
  then show ?case using Suc [of "Suc i"]
    by (cases k) (simp_all add: upt_rec)
qed

lemma consecutive_imp_upt: "consecutive (a # xs) \<Longrightarrow> a # xs = [a..<a + Suc (length xs)]"
proof (induction xs arbitrary: a)
  case Nil then show ?case by simp
next
  case (Cons b xs)
  then have b: "b = Suc a" and c: "consecutive (b # xs)" by auto
  from Cons.IH [OF c] b show ?case by (simp add: upt_rec)
qed

lemma sort_interval:
  assumes "distinct sel" "set sel = {i0..<i0 + k}"
  shows "sort sel = [i0..<i0 + k]"
  by (rule sorted_distinct_set_unique) (use assms in auto)

lemma map_js_nth_upt:
  "i0 + k \<le> length xs \<Longrightarrow> map (js_nth xs) [i0..<i0 + k] = map Some (take k (drop i0 xs))"
  by (rule nth_equalityI) (auto simp: js_nth_def)

lemma those_map_Some: "those (map Some ys) = Some ys"
  by (induction ys) auto

lemma foldl_sum: "foldl (\<lambda>sum s. sum + f s) a ss = a + sum_list (map f ss)"
  for a :: real
  by (induction ss arbitrary: a) auto


lemma consecutive_iff_upt:
  "xs \<noteq> [] \<Longrightarrow> consecutive xs \<longleftrightarrow> (\<exists>i0. xs = [i0..<i0 + length xs])"
proof (cases xs)
  case Nil
  then show "xs \<noteq> [] \<Longrightarrow> ?thesis" by simp
next
  case (Cons a ys)
  show ?thesis
  proof
    assume "consecutive xs"
    then have "xs = [a..<a + length xs]"
      using consecutive_imp_upt [of a ys] Cons by simp
    then show "\<exists>i0. xs = [i0..<i0 + length xs]" ..
  next
    assume "\<exists>i0. xs = [i0..<i0 + length xs]"
    then obtain i0 where "xs = [i0..<i0 + length xs]" ..
    then show "consecutive xs"
      using consecutive_upt [of i0 "length xs"] by simp
  qed
qed

lemma handleMergeSelected_rejects:
  assumes "\<not> (2 \<le> length sel \<and> (\<exists>i0. sort sel = [i0..<i0 + length sel]))"
  shows "handleMergeSelected sections sel = Alerted"
proof (cases "length sel < 2")
  case True
  then show ?thesis by (simp add: handleMergeSelected_def)
next
  case False
  then have ne: "sort sel \<noteq> []" by (cases sel) auto
  from False assms have "\<not> (\<exists>i0. sort sel = [i0..<i0 + length (sort sel)])" by simp
  then have "\<not> consecutive (sort sel)"
    using consecutive_iff_upt [OF ne] by simp
  then show ?thesis using False by (simp add: handleMergeSelected_def Let_def)
qed

lemma handleMergeSelected_applies:
  assumes d: "distinct sel" and s: "set sel = {i0..<i0 + k}" and k: "2 \<le> k"
    and r: "i0 + k \<le> length sections"
  shows "handleMergeSelected sections sel =
     SetSections (take i0 sections
       @ [\<lparr>stype = stype (sections ! i0),
            duration = Some (sum_list (map (\<lambda>s. case duration s of None \<Rightarrow> 0 | Some d \<Rightarrow> d)
                                         (take k (drop i0 sections)))),
            narration = join [CHR 0x0A] (map narration (take k (drop i0 sections))),
            visual_spec = visual_spec (sections ! i0)\<rparr>]
       @ drop (i0 + k) sections)"
proof -
  let ?sel = "take k (drop i0 sections)"
  have len: "length sel = k"
    using distinct_card [OF d] s by simp
  have srt: "sort sel = [i0..<i0 + k]"
    by (rule sort_interval [OF d s])
  have cons: "consecutive (sort sel)"
    unfolding srt by (rule consecutive_upt)
  have th: "those (map (js_nth sections) (sort sel)) = Some ?sel"
    unfolding srt by (simp only: map_js_nth_upt [OF r] those_map_Some)
  have i0: "i0 < length sections" using k r by simp
  obtain rest where sel: "?sel = (sections ! i0) # rest"
  proof -
    have "?sel \<noteq> []" using k i0 by simp
    moreover have "hd ?sel = sections ! i0"
      using k i0 by (simp add: hd_drop_conv_nth)
    ultimately have "?sel = (sections ! i0) # tl ?sel"
      by (metis list.collapse)
    then show ?thesis by (rule that)
  qed
  have hd: "hd (sort sel) = i0"
    unfolding srt using k by (simp add: upt_rec)
  have fi: "filter_index (\<lambda>i. i \<notin> set sel) sections = take i0 sections @ drop (i0 + k) sections"
    unfolding s by (rule filter_index_remove_range [OF r])
  have sp: "fst (splice_at (take i0 sections @ drop (i0 + k) sections) (int i0) 0 [m])
              = take i0 sections @ [m] @ drop (i0 + k) sections" for m
    using i0 by (subst splice_insert) (simp_all add: min_def)
  have fo: "foldl (\<lambda>sum s. sum + (case duration s of None \<Rightarrow> 0 | Some d \<Rightarrow> d)) 0 ?sel
              = sum_list (map (\<lambda>s. case duration s of None \<Rightarrow> 0 | Some d \<Rightarrow> d) ?sel)"
    by (simp only: foldl_sum add_0)
  have "handleMergeSelected sections sel =
      SetSections (fst (splice_at (filter_index (\<lambda>i. i \<notin> set sel) sections) (int (hd (sort sel))) 0
        [\<lparr>stype = stype (sections ! i0),
          duration = Some (foldl (\<lambda>sum s. sum + (case duration s of None \<Rightarrow> 0 | Some d \<Rightarrow> d))
                             0 (sections ! i0 # rest)),
          narration = join [CHR 0x0A] (map narration (sections ! i0 # rest)),
          visual_spec = visual_spec (sections ! i0)\<rparr>]))"
    using k len cons th unfolding handleMergeSelected_def sel by (simp add: Let_def)
  then show ?thesis
    unfolding fi hd sp sel [symmetric] fo .
qed


lemma those_Some_all: "those xs = Some ys \<Longrightarrow> None \<notin> set xs"
  by (induction xs arbitrary: ys) (auto split: option.splits)

lemma handleMergeSelected_SetSections_interval:
  assumes "handleMergeSelected sections sel = SetSections sections'" and d: "distinct sel"
  shows "\<exists>i0. set sel = {i0..<i0 + length sel} \<and> 2 \<le> length sel
              \<and> i0 + length sel \<le> length sections"
proof -
  have two: "2 \<le> length sel"
    using assms(1) by (auto simp: handleMergeSelected_def split: if_splits)
  then have ne: "sort sel \<noteq> []" by (cases sel) auto
  have cons: "consecutive (sort sel)"
    using assms(1) two by (auto simp: handleMergeSelected_def Let_def split: if_splits)
  then obtain i0 where srt: "sort sel = [i0..<i0 + length sel]"
    using consecutive_iff_upt [OF ne] by auto
  have "those (map (js_nth sections) (sort sel)) \<noteq> None"
    using assms(1) two cons
    by (auto simp: handleMergeSelected_def Let_def split: if_splits option.splits)
  then have "None \<notin> set (map (js_nth sections) (sort sel))"
    using those_Some_all by fastforce
  then have "\<forall>i\<in>set (sort sel). i < length sections"
    by (auto simp: js_nth_def split: if_splits)
  then have "\<forall>i\<in>{i0..<i0 + length sel}. i < length sections"
    unfolding srt by simp
  moreover have "i0 + length sel - 1 \<in> {i0..<i0 + length sel}"
    using two by auto
  ultimately have "i0 + length sel - 1 < length sections" by blast
  then have r: "i0 + length sel \<le> length sections" using two by simp
  have "set sel = set (sort sel)" by simp
  also have "\<dots> = {i0..<i0 + length sel}" unfolding srt by simp
  finally show ?thesis using two r by blast
qed

lemma splitSectionAtPosition_SetSections:
  assumes "splitSectionAtPosition sections index position = SetSections sections'"
  shows "\<exists>a b. index < length sections
           \<and> sections' = take index sections @ [a, b] @ drop (Suc index) sections"
proof -
  from assms have i: "index < length sections"
    by (auto simp: splitSectionAtPosition_def js_nth_def split: if_splits)
  from assms show ?thesis
    by (auto simp: splitSectionAtPosition_def js_nth_def Let_def splice_replace [OF i] i
             split: if_splits)
qed

lemma splitSectionAtPosition_applies:
  assumes "index < length sections" "0 < position"
    "position < int (length (narration (sections ! index)))"
  shows "\<exists>a b. splitSectionAtPosition sections index position
            = SetSections (take index sections @ [a, b] @ drop (Suc index) sections)"
  using assms
  by (simp add: splitSectionAtPosition_def js_nth_def Let_def splice_replace)

lemma contiguous_iff: "contiguous xs \<longleftrightarrow> None \<notin> set xs"
proof -
  have "contiguous xs \<longleftrightarrow> (\<forall>i\<in>set [0..<length xs]. xs ! i \<noteq> None)"
    unfolding contiguous_def occupied_positions_def by (rule filter_id_conv)
  also have "\<dots> \<longleftrightarrow> None \<notin> set xs"
    by (auto simp: in_set_conv_nth)
  finally show ?thesis .
qed

lemma contiguous_map_Some: "contiguous (map Some xs)"
  by (auto simp: contiguous_iff)

lemma indexOf_less: "indexOf xs x < int (length xs)"
  by (induction xs) (auto simp: Let_def)

lemma relative_index_less:
  "0 < len \<Longrightarrow> i < int len \<Longrightarrow> relative_index len i < len"
  by (auto simp: relative_index_def)

lemma arrayMove_mset:
  assumes "array \<noteq> []" and "from < int (length array)"
  shows "mset (arrayMove array from to) = mset (map Some array)"
proof -
  let ?k = "relative_index (length array) from"
  have k: "?k < length array"
    using assms by (simp add: relative_index_less)
  let ?rest = "take ?k array @ drop (Suc ?k) array"
  have s1: "splice_at array from 1 [] = (?rest, [array ! ?k])"
    using k by (simp add: splice_at_def Let_def min_def take_Suc_conv_app_nth
                          Cons_nth_drop_Suc [symmetric])
  have s2: "mset (fst (splice_at ys t 0 [y])) = mset ys + {#y#}" for ys :: "'a option list" and t y
  proof -
    have "mset (take n ys @ [y] @ drop n ys) = mset (take n ys @ drop n ys) + {#y#}" for n
      by (simp del: append_take_drop_id)
    then show ?thesis by (simp add: splice_at_def Let_def)
  qed
  have "mset ?rest + {#array ! ?k#} = mset array"
    using id_take_nth_drop [OF k] by (metis add_mset_add_single mset.simps(2) mset_append union_mset_add_mset_right)
  then have "mset (map Some ?rest) + {#Some (array ! ?k)#} = mset (map Some array)"
    by (metis image_mset_single image_mset_union mset_map)
  then show ?thesis
    unfolding arrayMove_def s1 by (simp add: Let_def s2)
qed

lemma handleDragEnd_SetSections:
  assumes "sections \<noteq> []" and "handleDragEnd sections active over = SetSections moved"
  shows "mset moved = mset (map Some sections)"
proof -
  have lt: "indexOf (sectionIds sections) active < int (length sections)"
    using indexOf_less [of "sectionIds sections" active] by (simp add: sectionIds_def)
  from assms(2) obtain overId where
    "moved = arrayMove sections (indexOf (sectionIds sections) active)
                                (indexOf (sectionIds sections) overId)"
    by (auto simp: handleDragEnd_def Let_def split: option.splits if_splits)
  then show ?thesis
    using arrayMove_mset [OF assms(1) lt] by simp
qed

lemma mset_map_Some_contiguous:
  "mset moved = mset (map Some xs) \<Longrightarrow> contiguous moved \<and> length moved = length xs"
proof -
  assume a: "mset moved = mset (map Some xs)"
  then have "set moved = set (map Some xs)" by (rule mset_eq_setD)
  then have "None \<notin> set moved" by auto
  moreover have "length moved = length xs"
    using a by (metis length_map size_mset)
  ultimately show ?thesis by (simp add: contiguous_iff)
qed


lemma deleteSection_SetSections:
  assumes "deleteSection sections index = SetSections sections'"
  shows "sections' = take index sections @ drop (Suc index) sections"
proof -
  from assms have s: "sections' = filter_index (\<lambda>i. i \<noteq> index) sections"
    by (auto simp: deleteSection_def split: if_splits)
  show ?thesis
  proof (cases "index < length sections")
    case True
    then show ?thesis unfolding s by (rule filter_index_remove_one)
  next
    case False
    then show ?thesis unfolding s by (simp add: filter_index_keep_all)
  qed
qed

text \<open>
  Claim C4. Every structural edit of the editor that installs a new section array leaves
  a contiguous, gap-free ordering: the sections occupy exactly the positions
  \<open>0, ..., n - 1\<close> of the new array. A split puts two sections in place of one, a
  merge puts one section in place of the selected run, a delete closes the position of
  the removed section (the sections before the edit keep their positions, those after
  it move up or down together), and a drag-and-drop reorder of a non-empty list is a
  permutation of the same sections with no position left undefined.
\<close>

theorem structural_edits_contiguous:
  "(splitSectionAtPosition sections index position = SetSections sections' \<longrightarrow>
      contiguous (map Some sections') \<and> length sections' = length sections + 1
      \<and> (\<exists>a b. sections' = take index sections @ [a, b] @ drop (Suc index) sections))
 \<and> (distinct sel \<and> handleMergeSelected sections sel = SetSections sections' \<longrightarrow>
      contiguous (map Some sections') \<and> length sections' + length sel = length sections + 1
      \<and> (\<exists>i0 merged. i0 + length sel \<le> length sections
            \<and> sections' = take i0 sections @ [merged] @ drop (i0 + length sel) sections))
 \<and> (deleteSection sections index = SetSections sections' \<longrightarrow>
      contiguous (map Some sections')
      \<and> sections' = take index sections @ drop (Suc index) sections)
 \<and> (sections \<noteq> [] \<and> handleDragEnd sections active over = SetSections moved \<longrightarrow>
      contiguous moved \<and> length moved = length sections
      \<and> mset moved = mset (map Some sections))"
proof (intro conjI impI)
  assume a: "splitSectionAtPosition sections index position = SetSections sections'"
  show "contiguous (map Some sections')" by (rule contiguous_map_Some)
  from splitSectionAtPosition_SetSections [OF a]
  show "length sections' = length sections + 1" by auto
  from splitSectionAtPosition_SetSections [OF a]
  show "\<exists>a b. sections' = take index sections @ [a, b] @ drop (Suc index) sections"
    by blast
next
  assume a: "distinct sel \<and> handleMergeSelected sections sel = SetSections sections'"
  show "contiguous (map Some sections')" by (rule contiguous_map_Some)
  from a handleMergeSelected_SetSections_interval [of sections sel sections']
  obtain i0 where i: "set sel = {i0..<i0 + length sel}" "2 \<le> length sel"
      "i0 + length sel \<le> length sections"
    by blast
  from a have d: "distinct sel" ..
  note m = handleMergeSelected_applies [OF d i]
  from a m show "length sections' + length sel = length sections + 1"
    using i by auto
  from a m i(3)
  show "\<exists>i0 merged. i0 + length sel \<le> length sections
          \<and> sections' = take i0 sections @ [merged] @ drop (i0 + length sel) sections"
    by auto
next
  assume a: "deleteSection sections index = SetSections sections'"
  show "contiguous (map Some sections')" by (rule contiguous_map_Some)
  show "sections' = take index sections @ drop (Suc index) sections"
    by (rule deleteSection_SetSections [OF a])
next
  assume a: "sections \<noteq> [] \<and> handleDragEnd sections active over = SetSections moved"
  then have m: "mset moved = mset (map Some sections)"
    using handleDragEnd_SetSections by blast
  from mset_map_Some_contiguous [OF m] m
  show "contiguous moved" "length moved = length sections"
       "mset moved = mset (map Some sections)"
    by simp_all
qed

text \<open>
  Witness for C4: a split, a merge, a delete and a reorder on the example script.
\<close>

theorem structural_edits_contiguous_witness:
  "splitSectionAtPosition [intro_section, body_section] 0 2
     = SetSections [intro_section\<lparr>narration := ''Hi''\<rparr>,
         \<lparr>stype = ''title'', duration = Some 0, narration = ''all'', visual_spec = Some []\<rparr>,
         body_section]
   \<and> contiguous (map Some [intro_section\<lparr>narration := ''Hi''\<rparr>,
         \<lparr>stype = ''title'', duration = Some 0, narration = ''all'', visual_spec = Some []\<rparr>,
         body_section])
   \<and> distinct [2, 1 :: nat]
   \<and> handleMergeSelected [intro_section, body_section, outro_section] [2, 1]
     = SetSections [intro_section,
         \<lparr>stype = ''slide'', duration = Some 2, narration = ''Body'' @ [CHR 0x0A] @ ''Bye'',
           visual_spec = Some [(''heading'', ''H'')]\<rparr>]
   \<and> contiguous (map Some [intro_section,
         \<lparr>stype = ''slide'', duration = Some 2, narration = ''Body'' @ [CHR 0x0A] @ ''Bye'',
           visual_spec = Some [(''heading'', ''H'')]\<rparr>])
   \<and> deleteSection [intro_section, body_section, outro_section] 1
     = SetSections [intro_section, outro_section]
   \<and> contiguous (map Some [intro_section, outro_section])
   \<and> [intro_section, body_section, outro_section] \<noteq> []
   \<and> handleDragEnd [intro_section, body_section, outro_section] ''section-0''
         (Some ''section-2'')
     = SetSections [Some body_section, Some outro_section, Some intro_section]
   \<and> contiguous [Some body_section, Some outro_section, Some intro_section]
   \<and> mset [Some body_section, Some outro_section, Some intro_section]
     = mset (map Some [intro_section, body_section, outro_section])"
proof -
  note edits = structural_edits_contiguous
  have split: "splitSectionAtPosition [intro_section, body_section] 0 2
     = SetSections [intro_section\<lparr>narration := ''Hi''\<rparr>,
         \<lparr>stype = ''title'', duration = Some 0, narration = ''all'', visual_spec = Some []\<rparr>,
         body_section]"
    by code_simp
  have merge: "handleMergeSelected [intro_section, body_section, outro_section] [2, 1]
     = SetSections [intro_section,
         \<lparr>stype = ''slide'', duration = Some 2, narration = ''Body'' @ [CHR 0x0A] @ ''Bye'',
           visual_spec = Some [(''heading'', ''H'')]\<rparr>]"
    by code_simp
  have delete: "deleteSection [intro_section, body_section, outro_section] 1
     = SetSections [intro_section, outro_section]"
    by code_simp
  have drag: "handleDragEnd [intro_section, body_section, outro_section] ''section-0''
         (Some ''section-2'')
     = SetSections [Some body_section, Some outro_section, Some intro_section]"
    by code_simp
  have ne: "[intro_section, body_section, outro_section] \<noteq> []"
    and di: "distinct [2, 1 :: nat]"
    by simp_all
  have c1: "contiguous (map Some [intro_section\<lparr>narration := ''Hi''\<rparr>,
         \<lparr>stype = ''title'', duration = Some 0, narration = ''all'', visual_spec = Some []\<rparr>,
         body_section])"
    using split edits [where sections = "[intro_section, body_section]" and index = 0
                         and position = 2] by blast
  have c2: "contiguous (map Some [intro_section,
         \<lparr>stype = ''slide'', duration = Some 2, narration = ''Body'' @ [CHR 0x0A] @ ''Bye'',
           visual_spec = Some [(''heading'', ''H'')]\<rparr>])"
    using merge di edits [where sections = "[intro_section, body_section, outro_section]"
                            and sel = "[2, 1]"] by blast
  have c3: "contiguous (map Some [intro_section, outro_section])"
    using delete edits [where sections = "[intro_section, body_section, outro_section]"
                          and index = 1] by blast
  have c4: "contiguous [Some body_section, Some outro_section, Some intro_section]
      \<and> mset [Some body_section, Some outro_section, Some intro_section]
          = mset (map Some [intro_section, body_section, outro_section])"
    using drag ne edits [where sections = "[intro_section, body_section, outro_section]"
                           and active = "''section-0''" and over = "Some ''section-2''"]
    by blast
  from split merge delete drag ne di c1 c2 c3 c4 show ?thesis
    by blast
qed

text \<open>
  Claim C9. Merging leaves the section list unchanged unless at least two sections are
  selected and their sorted indices are consecutive. When the selection is the run of
  sections \<open>first, ..., first + k - 1\<close> of the list (\<open>k \<ge> 2\<close>), the run is replaced, at
  position \<open>first\<close>, by one section whose duration is the sum of the run's durations
  (a missing duration counts as 0), whose narration is the run's narrations joined by a
  newline in index order, and whose type and visual_spec are those of the first selected
  section; the list becomes \<open>k - 1\<close> shorter.
\<close>

theorem handleMergeSelected_merges:
  "(\<not> (2 \<le> length sel \<and> (\<exists>i0. sort sel = [i0..<i0 + length sel])) \<longrightarrow>
      sections_after sections (handleMergeSelected sections sel) = sections)
 \<and> (distinct sel \<and> 2 \<le> length sel \<and> set sel = {first..<first + length sel}
      \<and> first + length sel \<le> length sections \<longrightarrow>
      handleMergeSelected sections sel =
        SetSections (take first sections
          @ [\<lparr>stype = stype (sections ! first),
               duration = Some (sum_list (map (\<lambda>s. case duration s of None \<Rightarrow> 0 | Some d \<Rightarrow> d)
                                 (take (length sel) (drop first sections)))),
               narration = join [CHR 0x0A]
                                (map narration (take (length sel) (drop first sections))),
               visual_spec = visual_spec (sections ! first)\<rparr>]
          @ drop (first + length sel) sections)
      \<and> length (sections_after sections (handleMergeSelected sections sel))
          = length sections - (length sel - 1))"
proof (intro conjI impI)
  assume "\<not> (2 \<le> length sel \<and> (\<exists>i0. sort sel = [i0..<i0 + length sel]))"
  then have "handleMergeSelected sections sel = Alerted"
    by (rule handleMergeSelected_rejects)
  then show "sections_after sections (handleMergeSelected sections sel) = sections"
    by simp
next
  assume a: "distinct sel \<and> 2 \<le> length sel \<and> set sel = {first..<first + length sel}
      \<and> first + length sel \<le> length sections"
  then have d: "distinct sel" and k: "2 \<le> length sel"
    and s: "set sel = {first..<first + length sel}"
    and r: "first + length sel \<le> length sections"
    by simp_all
  note m = handleMergeSelected_applies [OF d s k r]
  show "handleMergeSelected sections sel =
        SetSections (take first sections
          @ [\<lparr>stype = stype (sections ! first),
               duration = Some (sum_list (map (\<lambda>s. case duration s of None \<Rightarrow> 0 | Some d \<Rightarrow> d)
                                 (take (length sel) (drop first sections)))),
               narration = join [CHR 0x0A]
                                (map narration (take (length sel) (drop first sections))),
               visual_spec = visual_spec (sections ! first)\<rparr>]
          @ drop (first + length sel) sections)"
    by (rule m)
  show "length (sections_after sections (handleMergeSelected sections sel))
          = length sections - (length sel - 1)"
    unfolding m using k r by simp
qed

text \<open>
  Witness for C9: selecting the first and the last of three sections is rejected, and
  selecting the last two (ticked in reverse order) merges them.
\<close>

theorem handleMergeSelected_merges_witness:
  "\<not> (2 \<le> length [0, 2 :: nat] \<and> (\<exists>i0. sort [0, 2 :: nat] = [i0..<i0 + length [0, 2 :: nat]]))
   \<and> sections_after [intro_section, body_section, outro_section]
        (handleMergeSelected [intro_section, body_section, outro_section] [0, 2])
       = [intro_section, body_section, outro_section]
   \<and> distinct [2, 1 :: nat] \<and> 2 \<le> length [2, 1 :: nat]
   \<and> set [2, 1 :: nat] = {1..<1 + length [2, 1 :: nat]}
   \<and> 1 + length [2, 1 :: nat] \<le> length [intro_section, body_section, outro_section]
   \<and> handleMergeSelected [intro_section, body_section, outro_section] [2, 1]
       = SetSections [intro_section,
           \<lparr>stype = ''slide'', duration = Some 2, narration = ''Body'' @ [CHR 0x0A] @ ''Bye'',
             visual_spec = Some [(''heading'', ''H'')]\<rparr>]
   \<and> length (sections_after [intro_section, body_section, outro_section]
        (handleMergeSelected [intro_section, body_section, outro_section] [2, 1])) = 2"
proof -
  have h1: "\<not> (2 \<le> length [0, 2 :: nat]
              \<and> (\<exists>i0. sort [0, 2 :: nat] = [i0..<i0 + length [0, 2 :: nat]]))"
    by (simp add: upt_rec)
  have h2: "distinct [2, 1 :: nat] \<and> 2 \<le> length [2, 1 :: nat]
       \<and> set [2, 1 :: nat] = {1..<1 + length [2, 1 :: nat]}
       \<and> 1 + length [2, 1 :: nat] \<le> length [intro_section, body_section, outro_section]"
    by auto
  have e: "take 1 [intro_section, body_section, outro_section]
          @ [\<lparr>stype = stype ([intro_section, body_section, outro_section] ! 1),
               duration = Some (sum_list (map (\<lambda>s. case duration s of None \<Rightarrow> 0 | Some d \<Rightarrow> d)
                  (take (length [2, 1 :: nat]) (drop 1 [intro_section, body_section, outro_section])))),
               narration = join [CHR 0x0A]
                  (map narration (take (length [2, 1 :: nat])
                     (drop 1 [intro_section, body_section, outro_section]))),
               visual_spec = visual_spec ([intro_section, body_section, outro_section] ! 1)\<rparr>]
          @ drop (1 + length [2, 1 :: nat]) [intro_section, body_section, outro_section]
        = [intro_section,
           \<lparr>stype = ''slide'', duration = Some 2, narration = ''Body'' @ [CHR 0x0A] @ ''Bye'',
             visual_spec = Some [(''heading'', ''H'')]\<rparr>]"
    by (simp add: body_section_def outro_section_def)
  have c1: "sections_after [intro_section, body_section, outro_section]
        (handleMergeSelected [intro_section, body_section, outro_section] [0, 2])
       = [intro_section, body_section, outro_section]"
    using h1 handleMergeSelected_merges
            [where sel = "[0, 2]" and sections = "[intro_section, body_section, outro_section]"]
    by blast
  have c2: "handleMergeSelected [intro_section, body_section, outro_section] [2, 1]
       = SetSections [intro_section,
           \<lparr>stype = ''slide'', duration = Some 2, narration = ''Body'' @ [CHR 0x0A] @ ''Bye'',
             visual_spec = Some [(''heading'', ''H'')]\<rparr>]
     \<and> length (sections_after [intro_section, body_section, outro_section]
        (handleMergeSelected [intro_section, body_section, outro_section] [2, 1]))
         = length [intro_section, body_section, outro_section] - (length [2, 1 :: nat] - 1)"
    using h2 handleMergeSelected_merges
            [where sel = "[2, 1]" and sections = "[intro_section, body_section, outro_section]"
               and first = 1]
    unfolding e by blast
  from h1 h2 c1 c2 show ?thesis by simp
qed

section \<open>Properties of the confidence tiers\<close>





section \<open>Properties of the pipeline pages\<close>



lemma ComposePage_not_Rendered:
  "isLoading \<or> error \<or> project = None \<Longrightarrow>
     ComposePage isLoading error project status videoUrl composeIsError composeIsPending
       = Loading
     \<or> ComposePage isLoading error project status videoUrl composeIsError composeIsPending
       = LoadFailed"
  by (auto simp: ComposePage_def split: option.splits)

lemma page_shows_simps:
  "page_shows flag Loading = False"
  "page_shows flag LoadFailed = False"
  "page_shows flag (Rendered v) = flag v"
  by (simp_all add: page_shows_def)




text \<open>
  Claim C8, as amended. Whenever the compose status reports \<open>ffmpeg_available = false\<close>
  and compose is available (the project is loaded and the status reports \<open>can_compose\<close>
  or the state is \<open>narration_done\<close>), the compose flow still permits the compose action
  (the button is rendered, and disabled only while a compose is pending) and the state
  transition to record completion (a response without a video URL is handled as a
  success, and once the project is reported composed the page shows the recompose label
  and, with no video held, the completion message), and the degraded mode is surfaced:
  the ffmpeg-unavailable notice is rendered. It is not presented as a playable video
  unless a video URL is already held: the degraded response leaves the held URL as it
  is, and with none held no video player is rendered. When compose is not available,
  neither the button nor the notice is rendered.
\<close>

theorem ffmpeg_unavailable_surfaced:
  assumes "status = Some st" and "\<not> ffmpeg_available st"
  shows "(page_shows compose_button
            (ComposePage isLoading error project status videoUrl composeIsError
               composeIsPending)
          \<longleftrightarrow> \<not> isLoading \<and> \<not> error
              \<and> (\<exists>proj. project = Some proj \<and> (can_compose st \<or> state proj = narration_done)))
       \<and> (page_shows ffmpeg_notice
            (ComposePage isLoading error project status videoUrl composeIsError
               composeIsPending)
          \<longleftrightarrow> page_shows compose_button
                (ComposePage isLoading error project status videoUrl composeIsError
                   composeIsPending))
       \<and> (page_shows compose_button_disabled
            (ComposePage isLoading error project status videoUrl composeIsError
               composeIsPending)
          \<longleftrightarrow> page_shows compose_button
                (ComposePage isLoading error project status videoUrl composeIsError
                   composeIsPending)
              \<and> composeIsPending)
       \<and> handleCompose (Inr \<lparr>video_url = None\<rparr> :: string + ComposeResponse) videoUrl = (videoUrl, False, True)
       \<and> (\<not> truthy videoUrl \<longrightarrow>
            \<not> page_shows video_player
                (ComposePage isLoading error project status
                   (fst (handleCompose (Inr \<lparr>video_url = None\<rparr> :: string + ComposeResponse) videoUrl))
                   composeIsError composeIsPending))
       \<and> (can_compose st \<and> state refetched = composed \<longrightarrow>
            page_shows recompose_label
              (ComposePage False False (Some refetched) status
                 (fst (handleCompose (Inr \<lparr>video_url = None\<rparr> :: string + ComposeResponse) videoUrl)) False False)
            \<and> page_shows ffmpeg_notice
              (ComposePage False False (Some refetched) status
                 (fst (handleCompose (Inr \<lparr>video_url = None\<rparr> :: string + ComposeResponse) videoUrl)) False False)
            \<and> (page_shows completed_message
                 (ComposePage False False (Some refetched) status
                    (fst (handleCompose (Inr \<lparr>video_url = None\<rparr> :: string + ComposeResponse) videoUrl)) False False)
                \<longleftrightarrow> \<not> truthy videoUrl))"
proof -
  have h: "handleCompose (Inr \<lparr>video_url = None\<rparr> :: string + ComposeResponse) videoUrl = (videoUrl, False, True)"
    by (simp add: handleCompose_def truthy_def)
  have r: "can_compose st \<and> state refetched = composed \<longrightarrow>
            page_shows recompose_label
              (ComposePage False False (Some refetched) status videoUrl False False)
            \<and> page_shows ffmpeg_notice
              (ComposePage False False (Some refetched) status videoUrl False False)
            \<and> (page_shows completed_message
                 (ComposePage False False (Some refetched) status videoUrl False False)
                \<longleftrightarrow> \<not> truthy videoUrl)"
    using assms by (simp add: page_shows_simps ComposePage_def Let_def)
  show ?thesis
  proof (cases "isLoading \<or> error \<or> project = None")
    case True
    have c: "page_shows flag
               (ComposePage isLoading error project status url composeIsError composeIsPending)
             = False" for flag url
      using ComposePage_not_Rendered [OF True, of status url composeIsError composeIsPending]
      by (auto simp: page_shows_simps)
    from True r show ?thesis
      unfolding c h fst_conv by auto
  next
    case False
    then obtain proj where p: "isLoading = False" "error = False" "project = Some proj"
      by auto
    have m: "(page_shows compose_button
            (ComposePage False False (Some proj) (Some st) videoUrl composeIsError
               composeIsPending)
          \<longleftrightarrow> can_compose st \<or> state proj = narration_done)
       \<and> (page_shows ffmpeg_notice
            (ComposePage False False (Some proj) (Some st) videoUrl composeIsError
               composeIsPending)
          \<longleftrightarrow> can_compose st \<or> state proj = narration_done)
       \<and> (page_shows compose_button_disabled
            (ComposePage False False (Some proj) (Some st) videoUrl composeIsError
               composeIsPending)
          \<longleftrightarrow> (can_compose st \<or> state proj = narration_done) \<and> composeIsPending)
       \<and> (\<not> truthy videoUrl \<longrightarrow>
            \<not> page_shows video_player
                (ComposePage False False (Some proj) (Some st) videoUrl
                   composeIsError composeIsPending))"
      using assms(2) by (simp add: page_shows_simps ComposePage_def Let_def)
    from m r show ?thesis
      unfolding p h fst_conv assms(1) by auto
  qed
qed

text \<open>
  Witness for C8: narration is done, the status reports no ffmpeg, no video is held.
  The compose button and the notice are rendered; after the degraded compose the
  project is composed and the page shows the completion message and no video player.
\<close>

theorem ffmpeg_unavailable_surfaced_witness:
  "\<not> ffmpeg_available \<lparr>is_composed = False, can_compose = True, ffmpeg_available = False\<rparr>
   \<and> page_shows compose_button
        (ComposePage False False (Some \<lparr>state = narration_done, project_sections = []\<rparr>)
           (Some \<lparr>is_composed = False, can_compose = True, ffmpeg_available = False\<rparr>)
           None False False)
   \<and> page_shows ffmpeg_notice
        (ComposePage False False (Some \<lparr>state = narration_done, project_sections = []\<rparr>)
           (Some \<lparr>is_composed = False, can_compose = True, ffmpeg_available = False\<rparr>)
           None False False)
   \<and> \<not> page_shows compose_button_disabled
        (ComposePage False False (Some \<lparr>state = narration_done, project_sections = []\<rparr>)
           (Some \<lparr>is_composed = False, can_compose = True, ffmpeg_available = False\<rparr>)
           None False False)
   \<and> \<not> truthy None
   \<and> can_compose \<lparr>is_composed = False, can_compose = True, ffmpeg_available = False\<rparr>
   \<and> state \<lparr>state = composed, project_sections = []\<rparr> = composed
   \<and> page_shows completed_message
        (ComposePage False False (Some \<lparr>state = composed, project_sections = []\<rparr>)
           (Some \<lparr>is_composed = False, can_compose = True, ffmpeg_available = False\<rparr>)
           (fst (handleCompose (Inr \<lparr>video_url = None\<rparr> :: string + ComposeResponse) None))
           False False)
   \<and> \<not> page_shows video_player
        (ComposePage False False (Some \<lparr>state = composed, project_sections = []\<rparr>)
           (Some \<lparr>is_composed = False, can_compose = True, ffmpeg_available = False\<rparr>)
           (fst (handleCompose (Inr \<lparr>video_url = None\<rparr> :: string + ComposeResponse) None))
           False False)"
proof -
  have s: "Some \<lparr>is_composed = False, can_compose = True, ffmpeg_available = False\<rparr>
         = Some \<lparr>is_composed = False, can_compose = True, ffmpeg_available = False\<rparr>"
    and f: "\<not> ffmpeg_available \<lparr>is_composed = False, can_compose = True,
                                  ffmpeg_available = False\<rparr>"
    and n: "\<not> truthy None"
    and c: "can_compose \<lparr>is_composed = False, can_compose = True, ffmpeg_available = False\<rparr>"
    and st: "state \<lparr>state = composed, project_sections = []\<rparr> = composed"
    by (simp_all add: truthy_def)
  note t1 = ffmpeg_unavailable_surfaced
      [OF s f, where isLoading = False and error = False
         and project = "Some \<lparr>state = narration_done, project_sections = []\<rparr>"
         and videoUrl = None and composeIsError = False and composeIsPending = False
         and refetched = "\<lparr>state = composed, project_sections = []\<rparr>"]
  note t2 = ffmpeg_unavailable_surfaced
      [OF s f, where isLoading = False and error = False
         and project = "Some \<lparr>state = composed, project_sections = []\<rparr>"
         and videoUrl = None and composeIsError = False and composeIsPending = False
         and refetched = "\<lparr>state = composed, project_sections = []\<rparr>"]
  from t1 [THEN conjunct1] have a: "page_shows compose_button
        (ComposePage False False (Some \<lparr>state = narration_done, project_sections = []\<rparr>)
           (Some \<lparr>is_composed = False, can_compose = True, ffmpeg_available = False\<rparr>)
           None False False)"
    by simp
  from t1 [THEN conjunct2, THEN conjunct1] a have b: "page_shows ffmpeg_notice
        (ComposePage False False (Some \<lparr>state = narration_done, project_sections = []\<rparr>)
           (Some \<lparr>is_composed = False, can_compose = True, ffmpeg_available = False\<rparr>)
           None False False)"
    by (rule iffD2)
  from t1 [THEN conjunct2, THEN conjunct2, THEN conjunct1]
  have d: "\<not> page_shows compose_button_disabled
        (ComposePage False False (Some \<lparr>state = narration_done, project_sections = []\<rparr>)
           (Some \<lparr>is_composed = False, can_compose = True, ffmpeg_available = False\<rparr>)
           None False False)"
    by simp
  from t1 [THEN conjunct2, THEN conjunct2, THEN conjunct2, THEN conjunct2, THEN conjunct2]
       n c st
  have e: "page_shows completed_message
        (ComposePage False False (Some \<lparr>state = composed, project_sections = []\<rparr>)
           (Some \<lparr>is_composed = False, can_compose = True, ffmpeg_available = False\<rparr>)
           (fst (handleCompose (Inr \<lparr>video_url = None\<rparr> :: string + ComposeResponse) None))
           False False)"
    by blast
  from t2 [THEN conjunct2, THEN conjunct2, THEN conjunct2, THEN conjunct2, THEN conjunct1] n
  have g: "\<not> page_shows video_player
        (ComposePage False False (Some \<lparr>state = composed, project_sections = []\<rparr>)
           (Some \<lparr>is_composed = False, can_compose = True, ffmpeg_available = False\<rparr>)
           (fst (handleCompose (Inr \<lparr>video_url = None\<rparr> :: string + ComposeResponse) None))
           False False)"
    by (rule mp)
  show ?thesis
    by (intro conjI) (rule f a b d n c st e g)+
qed

text \<open>
  Counterexamples to C8 as stated. First, the status is present and reports no ffmpeg,
  but compose is not available (state \<open>init\<close>, \<open>can_compose = false\<close>): the page renders
  neither the compose button nor the ffmpeg-unavailable notice. Second, a video URL
  received from an earlier compose is held when the status reports no ffmpeg: it
  survives the degraded recompose, and the page renders the video player next to the
  notice.
\<close>

theorem ffmpeg_unavailable_surfaced_counterexample:
  "\<not> page_shows ffmpeg_notice
        (ComposePage False False (Some \<lparr>state = init, project_sections = []\<rparr>)
           (Some \<lparr>is_composed = False, can_compose = False, ffmpeg_available = False\<rparr>)
           None False False)
   \<and> \<not> page_shows compose_button
        (ComposePage False False (Some \<lparr>state = init, project_sections = []\<rparr>)
           (Some \<lparr>is_composed = False, can_compose = False, ffmpeg_available = False\<rparr>)
           None False False)
   \<and> page_shows video_player
        (ComposePage False False (Some \<lparr>state = composed, project_sections = []\<rparr>)
           (Some \<lparr>is_composed = True, can_compose = True, ffmpeg_available = False\<rparr>)
           (fst (handleCompose (Inr \<lparr>video_url = None\<rparr> :: string + ComposeResponse)
                   (fst (handleCompose
                           (Inr \<lparr>video_url = Some ''/videos/v.mp4''\<rparr> :: string + ComposeResponse)
                           None))))
           False False)
   \<and> page_shows ffmpeg_notice
        (ComposePage False False (Some \<lparr>state = composed, project_sections = []\<rparr>)
           (Some \<lparr>is_composed = True, can_compose = True, ffmpeg_available = False\<rparr>)
           (fst (handleCompose (Inr \<lparr>video_url = None\<rparr> :: string + ComposeResponse)
                   (fst (handleCompose
                           (Inr \<lparr>video_url = Some ''/videos/v.mp4''\<rparr> :: string + ComposeResponse)
                           None))))
           False False)"
  by (simp add: ComposePage_def page_shows_def handleCompose_def truthy_def Let_def)

section \<open>Properties of preference creation\<close>

lemma onChange_options:
  assumes "onChange f e = Some f'"
    and "form_category f \<in> set category_options"
    and "form_scope f \<in> set scope_options"
    and "form_section_type f \<in> set section_type_options"
  shows "form_category f' \<in> set category_options
       \<and> form_scope f' \<in> set scope_options
       \<and> form_section_type f' \<in> set section_type_options"
  using assms by (cases e) (auto split: if_splits)

lemma form_run_options:
  "form_run f events = Some f' \<Longrightarrow>
   form_category f \<in> set category_options \<Longrightarrow>
   form_scope f \<in> set scope_options \<Longrightarrow>
   form_section_type f \<in> set section_type_options \<Longrightarrow>
     form_category f' \<in> set category_options
     \<and> form_scope f' \<in> set scope_options
     \<and> form_section_type f' \<in> set section_type_options"
proof (induction events arbitrary: f)
  case Nil
  then show ?case by simp
next
  case (Cons e es)
  from Cons.prems(1) obtain g where g: "onChange f e = Some g" and r: "form_run g es = Some f'"
    by (auto split: option.splits)
  from onChange_options [OF g Cons.prems(2-4)] Cons.IH [OF r]
  show ?case by blast
qed

lemma form_run_section_type_untouched:
  "form_run f events = Some f' \<Longrightarrow> list_all (\<lambda>e. \<not> is_SetSectionType e) events \<Longrightarrow>
     form_section_type f' = form_section_type f"
proof (induction events arbitrary: f)
  case Nil
  then show ?case by simp
next
  case (Cons e es)
  from Cons.prems(1) obtain g where g: "onChange f e = Some g" and r: "form_run g es = Some f'"
    by (auto split: option.splits)
  from Cons.prems(2) have ne: "\<not> is_SetSectionType e" and rest: "list_all (\<lambda>e. \<not> is_SetSectionType e) es"
    by simp_all
  from g ne have "form_section_type g = form_section_type f"
    by (cases e) (auto split: if_splits)
  with Cons.IH [OF r rest] show ?case by simp
qed

text \<open>
  Claim C3, as amended. The table checks each column on its own: an accepted row has a
  category among the four categories, a scope among \<open>global\<close>, \<open>project\<close>,
  \<open>section_type\<close>, \<open>specific\<close>, and a section type that is null or one of the six
  section types. Every request the manual form can build passes these checks; its scope
  is \<open>global\<close>, \<open>section_type\<close> or \<open>project\<close>, its section type is absent exactly when
  the form's field is empty and is otherwise \<open>title\<close>, \<open>slide\<close>, \<open>code\<close> or \<open>summary\<close>;
  and a form whose section-type field was never set sends no section type.
\<close>

theorem preference_creation_checks:
  assumes "form_run newPref_initial events = Some f"
  shows "(preferences_insert_checks cat sc st \<longleftrightarrow>
            cat \<in> {''style'', ''structural'', ''content'', ''technical''}
            \<and> sc \<in> {''global'', ''project'', ''section_type'', ''specific''}
            \<and> st \<in> insert None (Some ` {''title'', ''slide'', ''code'', ''code_typing'',
                                           ''diagram'', ''summary''}))
       \<and> scope (handleCreate f) \<in> Some ` {''global'', ''section_type'', ''project''}
       \<and> section_type (handleCreate f)
            \<in> insert None (Some ` {''title'', ''slide'', ''code'', ''summary''})
       \<and> (section_type (handleCreate f) = None \<longleftrightarrow> form_section_type f = [])
       \<and> preferences_insert_checks (category (handleCreate f)) (form_scope f)
            (section_type (handleCreate f))
       \<and> (list_all (\<lambda>e. \<not> is_SetSectionType e) events
            \<longrightarrow> section_type (handleCreate f) = None)"
proof -
  have init: "form_category newPref_initial \<in> set category_options"
      "form_scope newPref_initial \<in> set scope_options"
      "form_section_type newPref_initial \<in> set section_type_options"
    by (simp_all add: newPref_initial_def category_options_def scope_options_def
                      section_type_options_def)
  from form_run_options [OF assms init]
  have opts: "form_category f \<in> set category_options"
      "form_scope f \<in> set scope_options"
      "form_section_type f \<in> set section_type_options"
    by simp_all
  have a: "preferences_insert_checks cat sc st \<longleftrightarrow>
            cat \<in> {''style'', ''structural'', ''content'', ''technical''}
            \<and> sc \<in> {''global'', ''project'', ''section_type'', ''specific''}
            \<and> st \<in> insert None (Some ` {''title'', ''slide'', ''code'', ''code_typing'',
                                           ''diagram'', ''summary''})"
    by (cases st)
       (auto simp: preferences_insert_checks_def preferences_category_check_def
                   preferences_scope_check_def preferences_section_type_check_def)
  have b: "scope (handleCreate f) \<in> Some ` {''global'', ''section_type'', ''project''}"
    using opts(2) by (simp add: handleCreate_def scope_options_def)
  have c: "section_type (handleCreate f)
            \<in> insert None (Some ` {''title'', ''slide'', ''code'', ''summary''})"
    using opts(3) by (auto simp: handleCreate_def section_type_options_def)
  have d: "section_type (handleCreate f) = None \<longleftrightarrow> form_section_type f = []"
    by (simp add: handleCreate_def)
  have e: "preferences_insert_checks (category (handleCreate f)) (form_scope f)
            (section_type (handleCreate f))"
    using opts
    by (auto simp: handleCreate_def preferences_insert_checks_def
                   preferences_category_check_def preferences_scope_check_def
                   preferences_section_type_check_def category_options_def
                   scope_options_def section_type_options_def)
  have g: "list_all (\<lambda>e. \<not> is_SetSectionType e) events
            \<longrightarrow> section_type (handleCreate f) = None"
  proof
    assume "list_all (\<lambda>e. \<not> is_SetSectionType e) events"
    from form_run_section_type_untouched [OF assms this]
    show "section_type (handleCreate f) = None"
      by (simp add: handleCreate_def newPref_initial_def)
  qed
  from a b c d e g show ?thesis by blast
qed

text \<open>
  Witness for C3: a form on which only the description was typed, and a form on which
  scope \<open>section_type\<close> and the section type \<open>code\<close> were chosen.
\<close>

theorem preference_creation_checks_witness:
  "form_run newPref_initial [SetDescription ''Short titles'']
     = Some \<lparr>form_description = ''Short titles'', form_category = ''style'',
             form_scope = ''global'', form_section_type = [], form_confidence = 0.7\<rparr>
   \<and> list_all (\<lambda>e. \<not> is_SetSectionType e) [SetDescription ''Short titles'']
   \<and> section_type (handleCreate
        \<lparr>form_description = ''Short titles'', form_category = ''style'',
         form_scope = ''global'', form_section_type = [], form_confidence = 0.7\<rparr>) = None
   \<and> form_run newPref_initial
        [SetDescription ''Dark code'', SetScope ''section_type'', SetSectionType ''code'']
     = Some \<lparr>form_description = ''Dark code'', form_category = ''style'',
             form_scope = ''section_type'', form_section_type = ''code'',
             form_confidence = 0.7\<rparr>
   \<and> preferences_insert_checks
        (category (handleCreate
           \<lparr>form_description = ''Dark code'', form_category = ''style'',
            form_scope = ''section_type'', form_section_type = ''code'',
            form_confidence = 0.7\<rparr>))
        ''section_type''
        (section_type (handleCreate
           \<lparr>form_description = ''Dark code'', form_category = ''style'',
            form_scope = ''section_type'', form_section_type = ''code'',
            form_confidence = 0.7\<rparr>))
   \<and> preferences_insert_checks ''style'' ''section_type'' (Some ''code'')"
proof -
  have r1: "form_run newPref_initial [SetDescription ''Short titles'']
     = Some \<lparr>form_description = ''Short titles'', form_category = ''style'',
             form_scope = ''global'', form_section_type = [], form_confidence = 0.7\<rparr>"
    by (simp add: newPref_initial_def)
  have r2: "form_run newPref_initial
        [SetDescription ''Dark code'', SetScope ''section_type'', SetSectionType ''code'']
     = Some \<lparr>form_description = ''Dark code'', form_category = ''style'',
             form_scope = ''section_type'', form_section_type = ''code'',
             form_confidence = 0.7\<rparr>"
    by (simp add: newPref_initial_def scope_options_def section_type_options_def)
  have n: "list_all (\<lambda>e. \<not> is_SetSectionType e) [SetDescription ''Short titles'']"
    by simp
  have c1: "section_type (handleCreate
        \<lparr>form_description = ''Short titles'', form_category = ''style'',
         form_scope = ''global'', form_section_type = [], form_confidence = 0.7\<rparr>) = None"
    using preference_creation_checks
            [OF r1, THEN conjunct2, THEN conjunct2, THEN conjunct2, THEN conjunct2,
             THEN conjunct2] n
    by (rule mp)
  note t2 = preference_creation_checks
              [OF r2, of "''style''" "''section_type''" "Some ''code''"]
  from t2 [THEN conjunct2, THEN conjunct2, THEN conjunct2, THEN conjunct2, THEN conjunct1]
  have "preferences_insert_checks
        (category (handleCreate
           \<lparr>form_description = ''Dark code'', form_category = ''style'',
            form_scope = ''section_type'', form_section_type = ''code'',
            form_confidence = 0.7\<rparr>))
        (form_scope \<lparr>form_description = ''Dark code'', form_category = ''style'',
            form_scope = ''section_type'', form_section_type = ''code'',
            form_confidence = 0.7\<rparr>)
        (section_type (handleCreate
           \<lparr>form_description = ''Dark code'', form_category = ''style'',
            form_scope = ''section_type'', form_section_type = ''code'',
            form_confidence = 0.7\<rparr>))"
    .
  then have c2: "preferences_insert_checks
        (category (handleCreate
           \<lparr>form_description = ''Dark code'', form_category = ''style'',
            form_scope = ''section_type'', form_section_type = ''code'',
            form_confidence = 0.7\<rparr>))
        ''section_type''
        (section_type (handleCreate
           \<lparr>form_description = ''Dark code'', form_category = ''style'',
            form_scope = ''section_type'', form_section_type = ''code'',
            form_confidence = 0.7\<rparr>))"
    by simp
  from t2 [THEN conjunct1]
  have "preferences_insert_checks ''style'' ''section_type'' (Some ''code'')
      \<longleftrightarrow> ''style'' \<in> {''style'', ''structural'', ''content'', ''technical''}
            \<and> ''section_type'' \<in> {''global'', ''project'', ''section_type'', ''specific''}
            \<and> Some ''code'' \<in> insert None (Some ` {''title'', ''slide'', ''code'',
                                     ''code_typing'', ''diagram'', ''summary''})"
    .
  then have c3: "preferences_insert_checks ''style'' ''section_type'' (Some ''code'')"
    by simp
  show ?thesis
    by (intro conjI) (rule r1 n c1 r2 c2 c3)+
qed

text \<open>
  Counterexample to C3 as stated. The table accepts a row with scope \<open>global\<close> and the
  section type \<open>code\<close>, and one with scope \<open>section_type\<close> and no section type; both
  break the pairing. The first is also what the form sends after the scope was set to
  \<open>section_type\<close>, the section type \<open>code\<close> chosen, and the scope set back to
  \<open>global\<close>: the field keeps its value while its select is hidden.
\<close>

theorem preference_creation_checks_counterexample:
  "preferences_insert_checks ''style'' ''global'' (Some ''code'')
   \<and> \<not> scope_qualifier_ok ''global'' (Some ''code'') None
   \<and> preferences_insert_checks ''style'' ''section_type'' None
   \<and> \<not> scope_qualifier_ok ''section_type'' None None
   \<and> map_option handleCreate
        (form_run newPref_initial
           [SetDescription ''d'', SetScope ''section_type'', SetSectionType ''code'',
            SetScope ''global''])
     = Some \<lparr>description = ''d'', category = ''style'', scope = Some ''global'',
             section_type = Some ''code'', confidence = Some 0.7\<rparr>"
  by (simp add: preferences_insert_checks_def preferences_category_check_def
                preferences_scope_check_def preferences_section_type_check_def
                scope_qualifier_ok_def newPref_initial_def scope_options_def
                section_type_options_def handleCreate_def)

section \<open>Properties of the dependency graph tracker\<close>

lemma set_dependents_closure_mono: "set found \<subseteq> set (dependents_closure n found)"
proof (induction n arbitrary: found)
  case 0
  show ?case by simp
next
  case (Suc n)
  have "set found \<subseteq> set (found @ direct_dependents found)" by simp
  also note Suc [of "found @ direct_dependents found"]
  finally show ?case by simp
qed

lemma direct_dependents_closure:
  "0 < n \<Longrightarrow> set (direct_dependents found) \<subseteq> set (dependents_closure n found)"
proof (cases n)
  case 0 then show "0 < n \<Longrightarrow> ?thesis" by simp
next
  case (Suc m)
  have "set (direct_dependents found) \<subseteq> set (found @ direct_dependents found)" by simp
  also have "\<dots> \<subseteq> set (dependents_closure m (found @ direct_dependents found))"
    by (rule set_dependents_closure_mono)
  finally show ?thesis using Suc by simp
qed

lemma Script_not_direct_dependent: "Script \<notin> set (direct_dependents us)"
  by (simp add: direct_dependents_def all_units_def)

lemma Script_not_in_closure:
  "Script \<notin> set found \<Longrightarrow> Script \<notin> set (dependents_closure n found)"
  by (induction n arbitrary: found) (simp_all add: Script_not_direct_dependent)

lemma in_staleFrontier:
  "u \<in> set (staleFrontier changed) \<longleftrightarrow>
     u \<in> set (dependents_closure (length all_units) (direct_dependents changed))"
proof -
  have "u \<in> set all_units" by (cases u) (simp_all add: all_units_def)
  then show ?thesis by (simp add: staleFrontier_def Let_def)
qed

lemma direct_of_Script:
  "Script \<in> set us \<Longrightarrow> {Narration, Images, Animations} \<subseteq> set (direct_dependents us)"
  by (simp add: direct_dependents_def all_units_def)

lemma Composition_direct:
  "Narration \<in> set us \<or> Images \<in> set us \<or> Animations \<in> set us \<Longrightarrow>
     Composition \<in> set (direct_dependents us)"
  by (auto simp: direct_dependents_def all_units_def)

lemma precedes_filter_all_units:
  "u \<noteq> Composition \<Longrightarrow> precedes u Composition (filter P all_units)"
  by (cases u) (simp_all add: precedes_def all_units_def)


text \<open>
  Claim C5. For every set of changed units that contains script, the stale frontier
  includes narration, images, animations and composition; for every set that contains
  narration, it includes composition and does not include script; and the frontier is
  ordered so that each of narration, images and animations precedes composition.
\<close>

theorem staleFrontier_closure:
  "(Script \<in> set changed \<longrightarrow>
      {Narration, Images, Animations, Composition} \<subseteq> set (staleFrontier changed))
 \<and> (Narration \<in> set changed \<longrightarrow>
      Composition \<in> set (staleFrontier changed) \<and> Script \<notin> set (staleFrontier changed))
 \<and> precedes Narration Composition (staleFrontier changed)
 \<and> precedes Images Composition (staleFrontier changed)
 \<and> precedes Animations Composition (staleFrontier changed)"
proof -
  let ?base = "direct_dependents changed"
  let ?reached = "dependents_closure (length all_units) ?base"
  have pos: "0 < length all_units" by (simp add: all_units_def)
  have base: "set ?base \<subseteq> set ?reached" by (rule set_dependents_closure_mono)
  have step: "set (direct_dependents ?base) \<subseteq> set ?reached"
    by (rule direct_dependents_closure [OF pos])
  have s: "{Narration, Images, Animations, Composition} \<subseteq> set (staleFrontier changed)"
    if "Script \<in> set changed"
  proof -
    from direct_of_Script [OF that] have three: "{Narration, Images, Animations} \<subseteq> set ?base" .
    then have "Composition \<in> set (direct_dependents ?base)"
      by (intro Composition_direct) simp
    with three base step show ?thesis
      by (auto simp: in_staleFrontier)
  qed
  have n: "Composition \<in> set (staleFrontier changed)" if "Narration \<in> set changed"
  proof -
    from that have "Composition \<in> set ?base" by (intro Composition_direct) simp
    with base show ?thesis by (auto simp: in_staleFrontier)
  qed
  have no_script: "Script \<notin> set (staleFrontier changed)"
    unfolding in_staleFrontier
    by (rule Script_not_in_closure) (rule Script_not_direct_dependent)
  have ord: "precedes u Composition (staleFrontier changed)" if "u \<noteq> Composition" for u
    unfolding staleFrontier_def Let_def by (rule precedes_filter_all_units [OF that])
  from s n no_script ord [of Narration] ord [of Images] ord [of Animations]
  show ?thesis by simp
qed

text \<open>Witness for C5: the frontiers of \<open>{script}\<close> and of \<open>{narration}\<close>.\<close>

theorem staleFrontier_closure_witness:
  "Script \<in> set [Script]
   \<and> {Narration, Images, Animations, Composition} \<subseteq> set (staleFrontier [Script])
   \<and> Narration \<in> set [Narration]
   \<and> Composition \<in> set (staleFrontier [Narration])
   \<and> Script \<notin> set (staleFrontier [Narration])
   \<and> precedes Narration Composition (staleFrontier [Script])"
  using staleFrontier_closure [of "[Script]"] staleFrontier_closure [of "[Narration]"]
  by simp

section \<open>Properties of the preference store\<close>

lemma ids_update_where:
  "(\<And>p. preference_id (change p) = preference_id p) \<Longrightarrow>
     map preference_id (update_where ident change store) = map preference_id store"
  by (induction store) (simp_all add: update_where_def)

lemma ids_apply_inference:
  "prefix (map preference_id store) (map preference_id (apply_inference store i))"
  by (cases i) (simp_all add: ids_update_where)

lemma ids_foldl_apply_inference:
  "prefix (map preference_id store) (map preference_id (foldl apply_inference store is))"
proof (induction "is" arbitrary: store)
  case Nil
  show ?case by simp
next
  case (Cons i "is")
  from ids_apply_inference [of store i] Cons [of "apply_inference store i"]
  show ?case by (auto intro: prefix_order.trans)
qed

lemma ids_serve: "prefix (map preference_id store) (map preference_id (serve store r))"
proof (cases r)
  case (CreatePreference p)
  then show ?thesis by simp
next
  case (UpdatePreference ident patch)
  then show ?thesis by (simp add: ids_update_where apply_patch_def)
next
  case (DeletePreference ident)
  then show ?thesis by (simp add: ids_update_where)
next
  case (EvolvePreferences inferred)
  then show ?thesis by (simp add: ids_foldl_apply_inference)
qed

lemma ids_foldl_serve:
  "prefix (map preference_id store) (map preference_id (foldl serve store requests))"
proof (induction requests arbitrary: store)
  case Nil
  show ?case by simp
next
  case (Cons r requests)
  from ids_serve [of store r] Cons [of "serve store r"]
  show ?case by (auto intro: prefix_order.trans)
qed

text \<open>
  Claim C2. Preference records are never hard-deleted. Through any sequence of requests
  of the public interface the records present before are still present, in the same
  order (the list of their ids is a prefix of the list afterwards); the delete request
  keeps every record and turns the addressed one into the same record with
  \<open>is_active = false\<close>.
\<close>

theorem preferences_never_hard_deleted:
  "prefix (map preference_id store) (map preference_id (foldl serve store requests))
 \<and> map preference_id (serve store (DeletePreference ident)) = map preference_id store
 \<and> (p \<in> set store \<longrightarrow>
      p\<lparr>is_active := False\<rparr> \<in> set (serve store (DeletePreference (preference_id p))))"
proof (intro conjI impI)
  show "prefix (map preference_id store) (map preference_id (foldl serve store requests))"
    by (rule ids_foldl_serve)
  show "map preference_id (serve store (DeletePreference ident)) = map preference_id store"
    by (simp add: ids_update_where)
  assume "p \<in> set store"
  then show "p\<lparr>is_active := False\<rparr> \<in> set (serve store (DeletePreference (preference_id p)))"
    by (force simp: update_where_def)
qed

text \<open>
  Witness for C2: one active Preference; after a delete request followed by an evolve
  run that infers nothing, the record is still there, inactive.
\<close>

theorem preferences_never_hard_deleted_witness:
  "\<lparr>preference_id = ''p1'', pref_description = ''Dark code'', pref_category = ''style'',
     pref_scope = ''global'', pref_section_type = None, pref_project_id = None,
     pref_confidence = 0.9, is_active = True\<rparr>
     \<in> set [\<lparr>preference_id = ''p1'', pref_description = ''Dark code'',
              pref_category = ''style'', pref_scope = ''global'', pref_section_type = None,
              pref_project_id = None, pref_confidence = 0.9, is_active = True\<rparr>]
   \<and> \<lparr>preference_id = ''p1'', pref_description = ''Dark code'', pref_category = ''style'',
       pref_scope = ''global'', pref_section_type = None, pref_project_id = None,
       pref_confidence = 0.9, is_active = False\<rparr>
     \<in> set (serve [\<lparr>preference_id = ''p1'', pref_description = ''Dark code'',
                     pref_category = ''style'', pref_scope = ''global'',
                     pref_section_type = None, pref_project_id = None,
                     pref_confidence = 0.9, is_active = True\<rparr>]
               (DeletePreference ''p1''))
   \<and> prefix [''p1'']
        (map preference_id
          (foldl serve [\<lparr>preference_id = ''p1'', pref_description = ''Dark code'',
                           pref_category = ''style'', pref_scope = ''global'',
                           pref_section_type = None, pref_project_id = None,
                           pref_confidence = 0.9, is_active = True\<rparr>]
             [DeletePreference ''p1'', EvolvePreferences []]))"
  using preferences_never_hard_deleted
          [of "[\<lparr>preference_id = ''p1'', pref_description = ''Dark code'',
                  pref_category = ''style'', pref_scope = ''global'',
                  pref_section_type = None, pref_project_id = None,
                  pref_confidence = 0.9, is_active = True\<rparr>]"
              "[DeletePreference ''p1'', EvolvePreferences []]" "''p1''"
              "\<lparr>preference_id = ''p1'', pref_description = ''Dark code'',
                pref_category = ''style'', pref_scope = ''global'',
                pref_section_type = None, pref_project_id = None,
                pref_confidence = 0.9, is_active = True\<rparr>"]
  by (simp add: update_where_def)

end
